theory Spec2Isabelle
  imports Complex_Main "HOL-Library.Multiset"
begin

section \<open>Data model\<close>

text \<open>
  The program works on objects of the chess library: a \<^verbatim>\<open>chess.Board\<close> is a mutable
  object that is determined by the position it was set up from and the moves pushed onto
  it since. A \<^verbatim>\<open>chess.Move\<close> is identified with its UCI notation. What the library
  computes from a board (the FEN serialisation, the legality of a move) is not code of
  the program; it is taken as a parameter, collected in the record \<open>env\<close> together
  with the move-frequency service the program queries over the network.

  Python's \<^verbatim>\<open>int\<close> is \<open>int\<close>. A finite \<^verbatim>\<open>float\<close> is the real number it denotes,
  and the two operations the program performs on floats round as Python does: see the
  section on doubles below.
\<close>

type_synonym move = string

record chess_board =
  start_fen :: string
  move_stack :: "move list"

text \<open>\<^verbatim>\<open>chess.Board()\<close>: the standard starting position, no move played.\<close>

definition Board :: chess_board where
  "Board = \<lparr>start_fen = ''rnbqkbnr/pppppppp/8/8/8/8/PPPPPPPP/RNBQKBNR w KQkq - 0 1'',
            move_stack = []\<rparr>"

text \<open>\<^verbatim>\<open>board.push(move)\<close> appends the move without checking its legality.\<close>

definition push :: "chess_board \<Rightarrow> move \<Rightarrow> chess_board" where
  "push b m = b\<lparr>move_stack := move_stack b @ [m]\<rparr>"

text \<open>One entry of the \<^verbatim>\<open>moves\<close> array of the service's JSON answer, and the answer.\<close>

record response_move =
  uci :: string
  move_white :: int
  move_draws :: int
  move_black :: int

record response =
  white :: int
  draws :: int
  black :: int
  moves :: "response_move list"

record env =
  fen :: "chess_board \<Rightarrow> string"
  legal :: "chess_board \<Rightarrow> string \<Rightarrow> bool"
  call_api :: "string \<Rightarrow> response option"

datatype error =
    ConflictingResponse "move list"
  | ZeroDivisionError
  | AssertionError
  | OverflowError
  | KeyError
  | IllegalMove string
  | OracleUnavailable
  | NotFinite

text \<open>\<^verbatim>\<open>board.push_uci(uci)\<close> parses the move and raises when it is not legal on the board.\<close>

definition push_uci :: "env \<Rightarrow> chess_board \<Rightarrow> string \<Rightarrow> error + chess_board" where
  "push_uci e b u = (if legal e b u then Inr (push b u) else Inl (IllegalMove u))"

text \<open>
  Boards are mutable and shared by reference, so they live in a store: a list of boards,
  the address of a board being its index. A \<^verbatim>\<open>PositionNode\<close> holds the address of its
  board and its probability; no code assigns to a node's attributes after construction,
  so nodes themselves are values.
\<close>

type_synonym store = "chess_board list"

record PositionNode =
  board :: nat
  probability :: real

text \<open>\<^verbatim>\<open>board.copy()\<close> allocates a new board with the same contents.\<close>

definition copy :: "store \<Rightarrow> nat \<Rightarrow> store \<times> nat" where
  "copy h a = (h @ [h ! a], length h)"

section \<open>Doubles\<close>

text \<open>
  A Python \<^verbatim>\<open>float\<close> is an IEEE 754 double: a number \<open>n * 2 ^ k\<close> with \<open>n\<close> an integer
  of at most 53 bits and \<open>k\<close> at least \<open>-1074\<close>, below \<open>2 ^ 1024\<close> in magnitude. The quotient
  of two integers and the product of two floats are the exact result rounded to the nearest
  double, a tie going to the even one.

  \<open>rne\<close> rounds a real to the nearest integer, ties to even. \<open>binade x\<close> is the exponent
  of the power of two at or below \<open>\<bar>x\<bar>\<close>, and no less than \<open>-1022\<close>, where the subnormal
  doubles begin; the doubles around \<open>x\<close> are the multiples of \<open>ulp x\<close>.
\<close>

definition rne :: "real \<Rightarrow> int" where
  "rne x = (let f = \<lfloor>x\<rfloor> in
     if x - of_int f < 1/2 then f
     else if 1/2 < x - of_int f then f + 1
     else if even f then f else f + 1)"

definition binade :: "real \<Rightarrow> int" where
  "binade x = max \<lfloor>log 2 \<bar>x\<bar>\<rfloor> (- 1022)"

definition ulp :: "real \<Rightarrow> real" where
  "ulp x = 2 powi (binade x - 52)"

definition nearest_double :: "real \<Rightarrow> real" where
  "nearest_double x = (if x = 0 then 0 else of_int (rne (x / ulp x)) * ulp x)"

text \<open>
  The rounded result, when it is a finite double. A result that rounds to \<open>2 ^ 1024\<close> or
  beyond is none: a quotient of integers then raises \<^verbatim>\<open>OverflowError\<close>, a product of
  floats is an infinity.
\<close>

definition to_double :: "real \<Rightarrow> real option" where
  "to_double x = (if \<bar>nearest_double x\<bar> < 2 ^ 1024 then Some (nearest_double x) else None)"

section \<open>The move-frequency service\<close>

text \<open>
  The loop of \<^verbatim>\<open>get_most_common_moves_from_lichess\<close> over the answer's moves. The
  quotient is Python's true division of two integers: it raises on a zero divisor, raises
  when the quotient is too large for a float, and is the nearest double otherwise (zero,
  when the quotient is too small).
\<close>

fun moves_loop :: "int \<Rightarrow> response_move list \<Rightarrow> (string \<times> real) list
    \<Rightarrow> error + (string \<times> real) list" where
  "moves_loop total_num_games [] move_list = Inr move_list"
| "moves_loop total_num_games (m # ms) move_list =
     (let variation_num_games = move_white m + move_draws m + move_black m in
      if total_num_games = 0 then Inl ZeroDivisionError
      else (case to_double (real_of_int variation_num_games / real_of_int total_num_games) of
              None \<Rightarrow> Inl OverflowError
            | Some relative_probability \<Rightarrow>
                moves_loop total_num_games ms (move_list @ [(uci m, relative_probability)])))"

definition get_most_common_moves_from_lichess ::
    "env \<Rightarrow> chess_board \<Rightarrow> error + (string \<times> real) list" where
  "get_most_common_moves_from_lichess e b =
     (case call_api e (fen e b) of
        None \<Rightarrow> Inl OracleUnavailable
      | Some response_object \<Rightarrow>
          moves_loop (white response_object + draws response_object + black response_object)
            (moves response_object) [])"

section \<open>Expansion of a node\<close>

text \<open>
  The loop of \<^verbatim>\<open>get_most_common_positions\<close>. The product of the two floats is the
  nearest double. A product beyond the finite doubles is an infinity in Python, which goes
  on with it; an infinity is not a value of this model, whose run ends there with
  \<open>NotFinite\<close>. It takes a relative probability above 1 to get there.
\<close>

fun positions_loop :: "env \<Rightarrow> PositionNode \<Rightarrow> (string \<times> real) list \<Rightarrow> store
    \<Rightarrow> PositionNode list \<Rightarrow> error + (store \<times> PositionNode list)" where
  "positions_loop e position [] h next_positions = Inr (h, next_positions)"
| "positions_loop e position (next_move # rest) h next_positions =
     (case copy h (board position) of (h1, next_board) \<Rightarrow>
        (case push_uci e (h1 ! next_board) (fst next_move) of
           Inl err \<Rightarrow> Inl err
         | Inr b \<Rightarrow>
             (case to_double (probability position * snd next_move) of
                None \<Rightarrow> Inl NotFinite
              | Some next_probability \<Rightarrow>
                  positions_loop e position rest (h1[next_board := b])
                    (next_positions @
                       [\<lparr>board = next_board, probability = next_probability\<rparr>]))))"

definition get_most_common_positions ::
    "env \<Rightarrow> store \<Rightarrow> PositionNode \<Rightarrow> error + (store \<times> PositionNode list)" where
  "get_most_common_positions e h position =
     (case get_most_common_moves_from_lichess e (h ! board position) of
        Inl err \<Rightarrow> Inl err
      | Inr next_moves \<Rightarrow> positions_loop e position next_moves h [])"

section \<open>Selection of the most probable node\<close>

text \<open>
  The scan of \<^verbatim>\<open>pop_most_probable_node\<close>: \<open>idx\<close> is the index of the head of the
  remaining list, \<open>max_idx\<close> and \<open>max_probability\<close> are the loop's variables.
\<close>

fun max_scan :: "PositionNode list \<Rightarrow> nat \<Rightarrow> nat option \<Rightarrow> real \<Rightarrow> nat option" where
  "max_scan [] idx max_idx max_probability = max_idx"
| "max_scan (position # ps) idx max_idx max_probability =
     (if probability position > max_probability
      then max_scan ps (Suc idx) (Some idx) (probability position)
      else max_scan ps (Suc idx) max_idx max_probability)"

text \<open>
  \<^verbatim>\<open>leaf_positions.pop(i)\<close> returns the element and leaves the list without it. The
  \<^verbatim>\<open>assert\<close> and the \<^verbatim>\<open>raise\<close> that follows it test the same condition, that the
  scan found no index; the model has the one error \<open>AssertionError\<close> for both.
\<close>

definition list_pop :: "'a list \<Rightarrow> nat \<Rightarrow> 'a \<times> 'a list" where
  "list_pop xs i = (xs ! i, take i xs @ drop (Suc i) xs)"

definition pop_most_probable_node ::
    "PositionNode list \<Rightarrow> error + (PositionNode \<times> PositionNode list)" where
  "pop_most_probable_node leaf_positions =
     (case max_scan leaf_positions 0 None 0 of
        None \<Rightarrow> Inl AssertionError
      | Some max_idx \<Rightarrow> Inr (list_pop leaf_positions max_idx))"

section \<open>The repertoire\<close>

type_synonym response_map = "string \<rightharpoonup> move"

text \<open>\<^verbatim>\<open>response_map[key]\<close> raises \<^verbatim>\<open>KeyError\<close> on a missing key.\<close>

definition getitem :: "response_map \<Rightarrow> string \<Rightarrow> error + move" where
  "getitem m k = (case m k of None \<Rightarrow> Inl KeyError | Some v \<Rightarrow> Inr v)"

text \<open>
  \<^verbatim>\<open>play_repertoire_move\<close>: the \<^verbatim>\<open>try\<close> block catches \<^verbatim>\<open>KeyError\<close> and nothing else.
  The board is the object at address \<open>a\<close> of the store.
\<close>

definition play_repertoire_move ::
    "env \<Rightarrow> response_map \<Rightarrow> store \<Rightarrow> nat \<Rightarrow> error + (bool \<times> store)" where
  "play_repertoire_move e repertoire h a =
     (case getitem repertoire (fen e (h ! a)) of
        Inr m \<Rightarrow> Inr (True, h[a := push (h ! a) m])
      | Inl err \<Rightarrow> (if err = KeyError then Inr (False, h) else Inl err))"

text \<open>
  A node of the parsed game tree (\<^verbatim>\<open>chess.pgn.GameNode\<close>): the board \<^verbatim>\<open>node.board()\<close>
  reached at the node, the move \<^verbatim>\<open>node.move\<close> that led to it (unused at the root of a
  game, where Python has \<^verbatim>\<open>None\<close>) and the variations that continue it. The parser
  is the library's; the file is taken as the list of the games it holds.
\<close>

datatype GameNode =
  GameNode (node_board: chess_board) (node_move: move) (variations: "GameNode list")

text \<open>
  The inner loop of \<^verbatim>\<open>Repertoire.__init__\<close>: \<^verbatim>\<open>pgn_nodes\<close> is a stack whose top is
  the end of the list.
\<close>

function index_nodes :: "env \<Rightarrow> GameNode list \<Rightarrow> response_map \<Rightarrow> error + response_map" where
  "index_nodes e pgn_nodes rm =
     (if pgn_nodes = [] then Inr rm
      else if length (variations (last pgn_nodes)) > 1
        then Inl (ConflictingResponse (move_stack (node_board (last pgn_nodes))))
      else if length (variations (last pgn_nodes)) = 0
        then index_nodes e (butlast pgn_nodes) rm
      else index_nodes e
             (butlast pgn_nodes @ variations (variations (last pgn_nodes) ! 0))
             (rm(fen e (node_board (last pgn_nodes)) \<mapsto>
                   node_move (variations (last pgn_nodes) ! 0))))"
  by pat_completeness auto

lemma size_butlast_less:
  "ns \<noteq> [] \<Longrightarrow> sum_list (map size (butlast ns)) < sum_list (map size (ns :: GameNode list))"
proof -
  assume "ns \<noteq> []"
  then obtain xs x where ns: "ns = xs @ [x]"
    by (metis append_butlast_last_id)
  have "0 < size x" by (cases x) simp
  with ns show ?thesis by simp
qed

lemma size_grandchildren_less:
  assumes "ns \<noteq> []" "variations (last ns) \<noteq> []"
  shows "sum_list (map size (butlast ns @ variations (variations (last ns) ! 0)))
           < sum_list (map size (ns :: GameNode list))"
proof -
  from assms(1) obtain xs x where ns: "ns = xs @ [x]"
    by (metis append_butlast_last_id)
  obtain b m vs where x: "x = GameNode b m vs" by (cases x)
  from assms(2) ns x obtain c cs where vs: "vs = c # cs" by (cases vs) auto
  obtain b' m' ws where c: "c = GameNode b' m' ws" by (cases c)
  have "sum_list (map size ws) \<le> size_list size ws"
    by (induction ws) auto
  then have "sum_list (map size ws) < size x"
    using x vs c by simp
  with ns x vs c show ?thesis by simp
qed

termination index_nodes
proof (relation "measure (\<lambda>(e, ns, rm). sum_list (map size ns))")
  show "wf (measure (\<lambda>(e, ns, rm). sum_list (map size ns)))" by simp
next
  fix e :: env and pgn_nodes :: "GameNode list" and rm :: response_map
  assume "pgn_nodes \<noteq> []"
  then show "((e, butlast pgn_nodes, rm), (e, pgn_nodes, rm))
      \<in> measure (\<lambda>(e, ns, rm). sum_list (map size ns))"
    by (simp add: size_butlast_less)
next
  fix e :: env and pgn_nodes :: "GameNode list" and rm :: response_map
  assume "pgn_nodes \<noteq> []" "\<not> 1 < length (variations (last pgn_nodes))"
    "length (variations (last pgn_nodes)) \<noteq> 0"
  then show "((e, butlast pgn_nodes @ variations (variations (last pgn_nodes) ! 0),
        rm(fen e (node_board (last pgn_nodes)) \<mapsto> node_move (variations (last pgn_nodes) ! 0))),
       (e, pgn_nodes, rm)) \<in> measure (\<lambda>(e, ns, rm). sum_list (map size ns))"
    using size_grandchildren_less [of pgn_nodes] by simp
qed

declare index_nodes.simps [simp del]

text \<open>
  The outer loop over the games of the file; the first error ends the construction. For
  Black the stack is the root's own list of variations, which the loop then changes; the
  root is not read again, and \<^verbatim>\<open>node.board()\<close> follows the parents, so the change is
  not observed.
\<close>

fun read_games :: "env \<Rightarrow> bool \<Rightarrow> GameNode list \<Rightarrow> response_map \<Rightarrow> error + response_map" where
  "read_games e is_black [] rm = Inr rm"
| "read_games e is_black (game # games) rm =
     (case index_nodes e (if is_black then variations game else [game]) rm of
        Inl err \<Rightarrow> Inl err
      | Inr rm' \<Rightarrow> read_games e is_black games rm')"

definition Repertoire :: "env \<Rightarrow> GameNode list \<Rightarrow> bool \<Rightarrow> error + response_map" where
  "Repertoire e pgn_file is_black = read_games e is_black pgn_file Map.empty"

section \<open>The search\<close>

record search_state =
  heap :: store
  leaf_positions :: "PositionNode list"
  unknown_positions :: "PositionNode list"

text \<open>
  One pass through the body of the \<^verbatim>\<open>while\<close> loop of
  \<^verbatim>\<open>get_most_common_unknown_positions\<close>: it ends in the next state of the loop, in the
  \<^verbatim>\<open>return\<close> inside the loop, or in an exception.
\<close>

datatype outcome = Continue search_state | Return search_state | Raise error

definition loop_body :: "env \<Rightarrow> response_map \<Rightarrow> int \<Rightarrow> search_state \<Rightarrow> outcome" where
  "loop_body e repertoire num_positions s =
     (case pop_most_probable_node (leaf_positions s) of
        Inl err \<Rightarrow> Raise err
      | Inr (node, rest) \<Rightarrow>
          (case play_repertoire_move e repertoire (heap s) (board node) of
             Inl err \<Rightarrow> Raise err
           | Inr (repertoire_move_exists, h1) \<Rightarrow>
               if repertoire_move_exists then
                 (case get_most_common_positions e h1 node of
                    Inl err \<Rightarrow> Raise err
                  | Inr (h2, children) \<Rightarrow>
                      Continue \<lparr>heap = h2, leaf_positions = rest @ children,
                                unknown_positions = unknown_positions s\<rparr>)
               else
                 (if int (length (unknown_positions s @ [node])) = num_positions
                  then Return \<lparr>heap = h1, leaf_positions = rest,
                               unknown_positions = unknown_positions s @ [node]\<rparr>
                  else Continue \<lparr>heap = h1, leaf_positions = rest,
                                 unknown_positions = unknown_positions s @ [node]\<rparr>)))"

text \<open>
  The loop. Nothing in the program bounds the number of passes, so the model counts them:
  \<open>None\<close> means that the passes allowed did not suffice (that some number of passes
  suffices is shown in the section on termination). The tag tells which of the
  two \<^verbatim>\<open>return\<close> statements ended the search: the one after the loop, reached when the
  frontier is empty, or the one inside it, reached when the result has the requested size.
\<close>

datatype exit = Exhausted | Reached

fun search_loop :: "nat \<Rightarrow> env \<Rightarrow> response_map \<Rightarrow> int \<Rightarrow> search_state
    \<Rightarrow> (error + exit \<times> search_state) option" where
  "search_loop 0 e repertoire num_positions s =
     (if leaf_positions s = [] then Some (Inr (Exhausted, s)) else None)"
| "search_loop (Suc n) e repertoire num_positions s =
     (if leaf_positions s = [] then Some (Inr (Exhausted, s))
      else (case loop_body e repertoire num_positions s of
              Raise err \<Rightarrow> Some (Inl err)
            | Return s' \<Rightarrow> Some (Inr (Reached, s'))
            | Continue s' \<Rightarrow> search_loop n e repertoire num_positions s'))"

text \<open>The state in which the loop is entered.\<close>

definition initial_state :: "env \<Rightarrow> bool \<Rightarrow> error + search_state" where
  "initial_state e is_black =
     (let h0 = [Board]; initial_position = \<lparr>board = 0, probability = 1\<rparr> in
      if is_black then
        (case get_most_common_positions e h0 initial_position of
           Inl err \<Rightarrow> Inl err
         | Inr (h, ps) \<Rightarrow> Inr \<lparr>heap = h, leaf_positions = ps, unknown_positions = []\<rparr>)
      else Inr \<lparr>heap = h0, leaf_positions = [initial_position], unknown_positions = []\<rparr>)"

definition run :: "nat \<Rightarrow> env \<Rightarrow> GameNode list \<Rightarrow> bool \<Rightarrow> int
    \<Rightarrow> (error + exit \<times> search_state) option" where
  "run fuel e pgn_file is_black num_positions =
     (case Repertoire e pgn_file is_black of
        Inl err \<Rightarrow> Some (Inl err)
      | Inr repertoire \<Rightarrow>
          (case initial_state e is_black of
             Inl err \<Rightarrow> Some (Inl err)
           | Inr s0 \<Rightarrow> search_loop fuel e repertoire num_positions s0))"

text \<open>
  What the caller receives: the list \<^verbatim>\<open>unknown_positions\<close> (with the store its nodes'
  boards live in), or the exception.
\<close>

definition get_most_common_unknown_positions :: "nat \<Rightarrow> env \<Rightarrow> GameNode list \<Rightarrow> bool \<Rightarrow> int
    \<Rightarrow> (error + PositionNode list \<times> store) option" where
  "get_most_common_unknown_positions fuel e pgn_file is_black num_positions =
     map_option (map_sum id (\<lambda>(x, s). (unknown_positions s, heap s)))
       (run fuel e pgn_file is_black num_positions)"

text \<open>The states the loop passes through, starting from a given one.\<close>

inductive reach :: "env \<Rightarrow> response_map \<Rightarrow> int \<Rightarrow> search_state \<Rightarrow> search_state \<Rightarrow> bool"
  for e repertoire num_positions s0 where
    reach_start: "reach e repertoire num_positions s0 s0"
  | reach_step: "reach e repertoire num_positions s0 s \<Longrightarrow> leaf_positions s \<noteq> [] \<Longrightarrow>
       loop_body e repertoire num_positions s = Continue s' \<Longrightarrow>
       reach e repertoire num_positions s0 s'"

code_pred reach .

section \<open>Notions used to state the properties\<close>

text \<open>
  The nodes of a game tree at which the analysed side is to move: \<open>to_move\<close> tells
  whether it is to move at the node given, and the turn changes with every ply.
\<close>

fun side_nodes :: "bool \<Rightarrow> GameNode \<Rightarrow> GameNode list" where
  "side_nodes to_move (GameNode b m vs) =
     (if to_move then [GameNode b m vs] else []) @ concat (map (side_nodes (\<not> to_move)) vs)"

definition all_side_nodes :: "bool \<Rightarrow> GameNode list \<Rightarrow> GameNode list" where
  "all_side_nodes is_black pgn_file = concat (map (side_nodes (\<not> is_black)) pgn_file)"

text \<open>The nodes the builder has still to index, given its stack of nodes.\<close>

definition pending :: "GameNode list \<Rightarrow> GameNode set" where
  "pending ns = (\<Union>n \<in> set ns. set (side_nodes True n))"

text \<open>What a map holds after the nodes of a set have been indexed on top of it.\<close>

definition keys_of :: "env \<Rightarrow> GameNode set \<Rightarrow> string set" where
  "keys_of e N = (\<lambda>n. fen e (node_board n)) ` {n \<in> N. variations n \<noteq> []}"

definition from_nodes :: "env \<Rightarrow> GameNode set \<Rightarrow> string \<Rightarrow> move \<Rightarrow> bool" where
  "from_nodes e N k m \<longleftrightarrow>
     (\<exists>n \<in> N. \<exists>c. variations n = [c] \<and> fen e (node_board n) = k \<and> node_move c = m)"

definition indexed :: "env \<Rightarrow> GameNode set \<Rightarrow> response_map \<Rightarrow> response_map \<Rightarrow> bool" where
  "indexed e N rm rm' \<longleftrightarrow>
     dom rm' = dom rm \<union> keys_of e N \<and>
     (\<forall>k m. rm' k = Some m \<longrightarrow> rm k = Some m \<or> from_nodes e N k m)"

text \<open>
  Notions for the termination of the search. A serialisation counts plies when the number
  of plies played can be read off it, as it can be read off a FEN (move number and side to
  move). The weight of a frontier node falls with the plies played on its board; the
  nodes of the frontier are separate when no two of them share a board.
\<close>

definition counts_plies :: "env \<Rightarrow> (string \<Rightarrow> nat) \<Rightarrow> bool" where
  "counts_plies e ply \<longleftrightarrow> (\<forall>b m. ply (fen e (push b m)) = Suc (ply (fen e b)))"

definition weight :: "env \<Rightarrow> (string \<Rightarrow> nat) \<Rightarrow> nat \<Rightarrow> store \<Rightarrow> PositionNode \<Rightarrow> nat" where
  "weight e ply N h n = Suc N - ply (fen e (h ! board n))"

definition frontier_weights ::
    "env \<Rightarrow> (string \<Rightarrow> nat) \<Rightarrow> nat \<Rightarrow> search_state \<Rightarrow> nat multiset" where
  "frontier_weights e ply N s =
     image_mset (weight e ply N (heap s)) (mset (leaf_positions s))"

definition separate :: "search_state \<Rightarrow> bool" where
  "separate s \<longleftrightarrow> distinct (map board (leaf_positions s)) \<and>
     (\<forall>n \<in> set (leaf_positions s). board n < length (heap s))"

text \<open>
  The games an answer counts for a move and for the position, and the exact quotient that
  the program rounds to the move's relative probability.
\<close>

definition move_games :: "response_move \<Rightarrow> int" where
  "move_games m = move_white m + move_draws m + move_black m"

definition total_games :: "response \<Rightarrow> int" where
  "total_games r = white r + draws r + black r"

definition share :: "response \<Rightarrow> response_move \<Rightarrow> real" where
  "share r m = real_of_int (move_games m) / real_of_int (total_games r)"

text \<open>A real number is in the range of the doubles when rounding it gives a finite double.\<close>

definition in_double_range :: "real \<Rightarrow> bool" where
  "in_double_range x = (to_double x \<noteq> None)"

text \<open>
  The counts of an answer are in range when every move it lists has a count that is not
  negative and not above the count of the position.
\<close>

definition in_range :: "response \<Rightarrow> bool" where
  "in_range r = list_all (\<lambda>m. 0 \<le> move_games m \<and> move_games m \<le> total_games r) (moves r)"

definition counts_in_range :: "env \<Rightarrow> bool" where
  "counts_in_range e = (\<forall>k r. call_api e k = Some r \<longrightarrow> in_range r)"

definition in_unit_interval :: "PositionNode \<Rightarrow> bool" where
  "in_unit_interval n = (0 \<le> probability n \<and> probability n \<le> 1)"


section \<open>A concrete setting\<close>

text \<open>
  A small setting on which the definitions can be run: a serialisation that records the
  number of plies played, as a FEN does, and lists the moves; a service that knows three
  positions; and the repertoire \<open>1.d4 d5 2.c4\<close>. After \<open>1.d4\<close> the service lists
  \<open>d5\<close> with half of the games and \<open>Nf6\<close> with a quarter of them.
\<close>

definition demo_fen :: "chess_board \<Rightarrow> string" where
  "demo_fen b = replicate (length (move_stack b)) CHR ''+'' @
                concat (map (\<lambda>m. CHR '' '' # m) (move_stack b))"

definition demo_ply :: "string \<Rightarrow> nat" where
  "demo_ply s = length (takeWhile (\<lambda>c. c = CHR ''+'') s)"

definition d4_answer :: response where
  "d4_answer = \<lparr>white = 4, draws = 2, black = 2, moves =
     [\<lparr>uci = ''d7d5'', move_white = 2, move_draws = 1, move_black = 1\<rparr>,
      \<lparr>uci = ''g8f6'', move_white = 1, move_draws = 0, move_black = 1\<rparr>]\<rparr>"

definition c4_answer :: response where
  "c4_answer = \<lparr>white = 2, draws = 1, black = 1, moves =
     [\<lparr>uci = ''e7e6'', move_white = 1, move_draws = 1, move_black = 0\<rparr>]\<rparr>"

definition demo_api :: "string \<Rightarrow> response option" where
  "demo_api = map_of
     [(''+ d2d4'', d4_answer),
      (''+++ d2d4 d7d5 c2c4'', c4_answer),
      (''++++ d2d4 d7d5 c2c4 e7e6'', \<lparr>white = 0, draws = 0, black = 0, moves = []\<rparr>)]"

definition demo_env :: env where
  "demo_env = \<lparr>fen = demo_fen, legal = (\<lambda>b u. True), call_api = demo_api\<rparr>"

definition demo_game :: GameNode where
  "demo_game =
     GameNode Board []
       [GameNode (push Board ''d2d4'') ''d2d4''
          [GameNode (push (push Board ''d2d4'') ''d7d5'') ''d7d5''
             [GameNode (push (push (push Board ''d2d4'') ''d7d5'') ''c2c4'') ''c2c4'' []]]]"

text \<open>The repertoire built from that game, and the states a search passes through.\<close>

definition demo_repertoire :: response_map where
  "demo_repertoire = [demo_fen Board \<mapsto> ''d2d4'',
     demo_fen (push (push Board ''d2d4'') ''d7d5'') \<mapsto> ''c2c4'']"

definition demo_start :: search_state where
  "demo_start = \<lparr>heap = [Board], leaf_positions = [\<lparr>board = 0, probability = 1\<rparr>],
                 unknown_positions = []\<rparr>"

definition demo_state :: search_state where
  "demo_state = \<lparr>heap = [push Board ''d2d4'', push (push Board ''d2d4'') ''d7d5'',
                        push (push Board ''d2d4'') ''g8f6''],
                 leaf_positions = [\<lparr>board = 1, probability = 1/2\<rparr>,
                                   \<lparr>board = 2, probability = 1/4\<rparr>],
                 unknown_positions = []\<rparr>"

definition demo_heap :: store where
  "demo_heap = [push Board ''d2d4'',
                push (push (push Board ''d2d4'') ''d7d5'') ''c2c4'',
                push (push Board ''d2d4'') ''g8f6'',
                push (push (push (push Board ''d2d4'') ''d7d5'') ''c2c4'') ''e7e6'']"

definition demo_state2 :: search_state where
  "demo_state2 = \<lparr>heap = demo_heap,
                  leaf_positions = [\<lparr>board = 2, probability = 1/4\<rparr>,
                                    \<lparr>board = 3, probability = 1/4\<rparr>],
                  unknown_positions = []\<rparr>"

definition demo_state3 :: search_state where
  "demo_state3 = \<lparr>heap = demo_heap,
                  leaf_positions = [\<lparr>board = 3, probability = 1/4\<rparr>],
                  unknown_positions = [\<lparr>board = 2, probability = 1/4\<rparr>]\<rparr>"

definition demo_final :: search_state where
  "demo_final = \<lparr>heap = demo_heap,
                 leaf_positions = [],
                 unknown_positions = [\<lparr>board = 2, probability = 1/4\<rparr>,
                                      \<lparr>board = 3, probability = 1/4\<rparr>]\<rparr>"

text \<open>A game in which White has two continuations after \<open>1.e4 e5\<close>.\<close>

definition conflict_game :: GameNode where
  "conflict_game =
     GameNode Board []
       [GameNode (push Board ''e2e4'') ''e2e4''
          [GameNode (push (push Board ''e2e4'') ''e7e5'') ''e7e5''
             [GameNode (push (push (push Board ''e2e4'') ''e7e5'') ''g1f3'') ''g1f3'' [],
              GameNode (push (push (push Board ''e2e4'') ''e7e5'') ''b1c3'') ''b1c3'' []]]]"

text \<open>Two chapters of one file: in the first White opens \<open>1.e4\<close>, in the second \<open>1.d4\<close>.\<close>

definition e4_chapter :: GameNode where
  "e4_chapter = GameNode Board [] [GameNode (push Board ''e2e4'') ''e2e4'' []]"

definition d4_chapter :: GameNode where
  "d4_chapter = GameNode Board [] [GameNode (push Board ''d2d4'') ''d2d4'' []]"

text \<open>A service that lists a move no game has played, for a position reached ten times.\<close>

definition unplayed_api :: "string \<Rightarrow> response option" where
  "unplayed_api = map_of
     [([], \<lparr>white = 4, draws = 3, black = 3, moves =
         [\<lparr>uci = ''a2a3'', move_white = 0, move_draws = 0, move_black = 0\<rparr>]\<rparr>)]"

definition unplayed_env :: env where
  "unplayed_env = \<lparr>fen = demo_fen, legal = (\<lambda>b u. True), call_api = unplayed_api\<rparr>"

text \<open>A service whose answer records no game at all and still lists a move.\<close>

definition no_games_api :: "string \<Rightarrow> response option" where
  "no_games_api = map_of
     [([], \<lparr>white = 0, draws = 0, black = 0, moves =
         [\<lparr>uci = ''a2a3'', move_white = 0, move_draws = 0, move_black = 0\<rparr>]\<rparr>)]"

definition no_games_env :: env where
  "no_games_env = \<lparr>fen = demo_fen, legal = (\<lambda>b u. True), call_api = no_games_api\<rparr>"

text \<open>A service that lists a move played once, for a position reached \<open>10 ^ 400\<close> times.\<close>

definition rare_api :: "string \<Rightarrow> response option" where
  "rare_api = map_of
     [([], \<lparr>white = 10 ^ 400, draws = 0, black = 0, moves =
         [\<lparr>uci = ''a2a3'', move_white = 1, move_draws = 0, move_black = 0\<rparr>]\<rparr>)]"

definition rare_env :: env where
  "rare_env = \<lparr>fen = demo_fen, legal = (\<lambda>b u. True), call_api = rare_api\<rparr>"

text \<open>
  A service that lists three moves with two, three and three of the eight games, and a
  node whose probability is the double nearest to 7/9.
\<close>

definition eighths_api :: "string \<Rightarrow> response option" where
  "eighths_api = map_of
     [([], \<lparr>white = 8, draws = 0, black = 0, moves =
         [\<lparr>uci = ''a2a3'', move_white = 2, move_draws = 0, move_black = 0\<rparr>,
          \<lparr>uci = ''b2b3'', move_white = 3, move_draws = 0, move_black = 0\<rparr>,
          \<lparr>uci = ''c2c3'', move_white = 3, move_draws = 0, move_black = 0\<rparr>]\<rparr>)]"

definition eighths_env :: env where
  "eighths_env = \<lparr>fen = demo_fen, legal = (\<lambda>b u. True), call_api = eighths_api\<rparr>"

definition seven_ninths :: PositionNode where
  "seven_ninths = \<lparr>board = 0, probability = 7005599420354105 / 9007199254740992\<rparr>"

section \<open>Auxiliary facts\<close>

subsection \<open>Rounding to the nearest double\<close>

lemma rne_error: "\<bar>of_int (rne x) - x\<bar> \<le> 1/2"
proof -
  have "of_int \<lfloor>x\<rfloor> \<le> x" "x < of_int \<lfloor>x\<rfloor> + 1" by linarith+
  then show ?thesis by (auto simp: rne_def Let_def)
qed

lemma rne_nonneg: "0 \<le> x \<Longrightarrow> 0 \<le> rne x"
proof -
  assume "0 \<le> x"
  then have "0 \<le> \<lfloor>x\<rfloor>" by simp
  then show ?thesis by (auto simp: rne_def Let_def)
qed

lemma rne_le_int: "x \<le> of_int n \<Longrightarrow> rne x \<le> n"
proof -
  assume a: "x \<le> of_int n"
  have fl: "of_int \<lfloor>x\<rfloor> \<le> x" by linarith
  from a have le: "\<lfloor>x\<rfloor> \<le> n" by (simp add: floor_le_iff)
  show ?thesis
  proof (cases "\<lfloor>x\<rfloor> = n")
    case True
    with a fl have "x - of_int \<lfloor>x\<rfloor> = 0" by simp
    then show ?thesis using True by (simp add: rne_def Let_def)
  next
    case False
    with le have "\<lfloor>x\<rfloor> + 1 \<le> n" by simp
    with le show ?thesis by (auto simp: rne_def Let_def)
  qed
qed

lemma rne_of_int: "rne (of_int n) = n"
  by (simp add: rne_def)

lemma ulp_pos: "0 < ulp x"
  by (simp add: ulp_def)

lemma binade_unit:
  assumes "x \<noteq> 0" "\<bar>x\<bar> \<le> 1"
  shows "binade x \<le> 0"
proof -
  from assms have "log 2 \<bar>x\<bar> \<le> 0" by simp
  then have "\<lfloor>log 2 \<bar>x\<bar>\<rfloor> \<le> 0" by (simp add: floor_le_iff)
  then show ?thesis by (simp add: binade_def)
qed

lemma powr_powi: "(2::real) powr (of_int j) = 2 powi j"
  by (simp add: powr_real_of_int')

lemma binade_eq:
  assumes "2 powi k \<le> \<bar>x\<bar>" "\<bar>x\<bar> < 2 powi (k + 1)" "- 1022 \<le> k"
  shows "binade x = k"
proof -
  have "(0::real) < 2 powi k" by simp
  with assms(1) have pos: "0 < \<bar>x\<bar>" by linarith
  from assms(1) have "2 powr (of_int k) \<le> \<bar>x\<bar>" by (simp only: powr_powi)
  then have lo: "of_int k \<le> log 2 \<bar>x\<bar>"
    using pos by (subst le_log_iff) simp_all
  from assms(2) have "\<bar>x\<bar> < 2 powr (of_int (k + 1))" by (simp only: powr_powi)
  then have hi: "log 2 \<bar>x\<bar> < of_int (k + 1)"
    using pos by (subst log_less_iff) (simp_all del: of_int_add)
  from lo hi have "\<lfloor>log 2 \<bar>x\<bar>\<rfloor> = k" by (simp add: floor_eq_iff)
  with assms(3) show ?thesis by (simp add: binade_def)
qed

lemma binade_tiny:
  assumes "x \<noteq> 0" "\<bar>x\<bar> < 2 powi (- 1022)"
  shows "binade x = - 1022"
proof -
  have pos: "0 < \<bar>x\<bar>" using assms(1) by simp
  from assms(2) have "\<bar>x\<bar> < 2 powr (of_int (- 1022))" by (simp only: powr_powi)
  then have "log 2 \<bar>x\<bar> < of_int (- 1022)"
    using pos by (subst log_less_iff) (simp_all del: of_int_minus of_int_numeral)
  then have "\<lfloor>log 2 \<bar>x\<bar>\<rfloor> < - 1022" by (simp only: floor_less_iff)
  then show ?thesis by (simp add: binade_def)
qed

lemma nearest_double_normal:
  assumes "2 powi k \<le> \<bar>x\<bar>" "\<bar>x\<bar> < 2 powi (k + 1)" "- 1022 \<le> k"
  shows "nearest_double x = of_int (rne (x / 2 powi (k - 52))) * 2 powi (k - 52)"
proof -
  have "x \<noteq> 0" using assms(1) by (smt (verit) zero_less_power_int)
  then show ?thesis by (simp add: nearest_double_def ulp_def binade_eq [OF assms])
qed

lemma nearest_double_tiny:
  assumes "x \<noteq> 0" "\<bar>x\<bar> < 2 powi (- 1022)"
  shows "nearest_double x = of_int (rne (x / 2 powi (- 1074))) * 2 powi (- 1074)"
  using assms by (simp add: nearest_double_def ulp_def binade_tiny)

lemma nearest_double_unit:
  assumes "0 \<le> x" "x \<le> 1"
  shows "0 \<le> nearest_double x \<and> nearest_double x \<le> 1"
proof (cases "x = 0")
  case True
  then show ?thesis by (simp add: nearest_double_def)
next
  case False
  with assms have b: "binade x \<le> 0" by (intro binade_unit) simp_all
  define n where "n = nat (52 - binade x)"
  have inv: "1 / ulp x = of_int (2 ^ n)"
  proof -
    have "ulp x * 2 powi (52 - binade x) = 2 powi ((binade x - 52) + (52 - binade x))"
      unfolding ulp_def by (subst power_int_add) simp_all
    then have "ulp x * 2 powi (52 - binade x) = 1" by simp
    moreover have "52 - binade x = int n" using b by (simp add: n_def)
    ultimately have "ulp x * 2 ^ n = 1" by simp
    then show ?thesis using ulp_pos [of x] by (simp add: field_simps)
  qed
  have "x / ulp x \<le> 1 / ulp x"
    using assms(2) ulp_pos [of x] by (simp add: divide_right_mono)
  then have "rne (x / ulp x) \<le> 2 ^ n" using inv rne_le_int by metis
  then have "of_int (rne (x / ulp x)) \<le> (of_int (2 ^ n) :: real)" by (simp only: of_int_le_iff)
  then have "of_int (rne (x / ulp x)) * ulp x \<le> of_int (2 ^ n) * ulp x"
    using ulp_pos [of x] by (simp add: mult_right_mono)
  also have "of_int (2 ^ n) * ulp x = 1"
    using inv ulp_pos [of x] by (simp add: field_simps)
  finally have up: "nearest_double x \<le> 1" using False by (simp add: nearest_double_def)
  have "0 \<le> x / ulp x" using assms(1) ulp_pos [of x] by simp
  then have "0 \<le> rne (x / ulp x)" by (rule rne_nonneg)
  then have "0 \<le> nearest_double x"
    using False ulp_pos [of x] by (simp add: nearest_double_def)
  with up show ?thesis by simp
qed

lemma nearest_double_error:
  assumes "\<bar>x\<bar> \<le> 1"
  shows "\<bar>nearest_double x - x\<bar> \<le> 1 / 2 ^ 53"
proof (cases "x = 0")
  case True
  then show ?thesis by (simp add: nearest_double_def)
next
  case False
  with assms have b: "binade x \<le> 0" by (intro binade_unit) simp_all
  have u: "ulp x \<le> 1 / 2 ^ 52"
  proof -
    have "ulp x \<le> 2 powi (- 52)"
      unfolding ulp_def using b by (intro power_int_increasing) simp_all
    then show ?thesis by (simp add: power_int_minus field_simps)
  qed
  have "nearest_double x - x = (of_int (rne (x / ulp x)) - x / ulp x) * ulp x"
    using False ulp_pos [of x] by (simp add: nearest_double_def field_simps)
  then have "\<bar>nearest_double x - x\<bar> = \<bar>of_int (rne (x / ulp x)) - x / ulp x\<bar> * ulp x"
    using ulp_pos [of x] by (simp add: abs_mult)
  also have "\<dots> \<le> 1/2 * ulp x"
    using rne_error [of "x / ulp x"] ulp_pos [of x] by (intro mult_right_mono) simp_all
  also have "\<dots> \<le> 1/2 * (1 / 2 ^ 52)" using u by simp
  finally show ?thesis by simp
qed

lemma to_double_unit:
  assumes "0 \<le> x" "x \<le> 1"
  shows "to_double x = Some (nearest_double x)"
proof -
  from nearest_double_unit [OF assms] have "\<bar>nearest_double x\<bar> \<le> 1" by simp
  moreover have "(1::real) < 2 ^ 1024" by simp
  ultimately have "\<bar>nearest_double x\<bar> < 2 ^ 1024" by linarith
  then show ?thesis by (simp add: to_double_def)
qed

lemma nearest_double_relative_error:
  "\<bar>nearest_double x - x\<bar> \<le> \<bar>x\<bar> / 2 ^ 53 + 1 / 2 ^ 1075"
proof (cases "x = 0")
  case True
  then show ?thesis by (simp add: nearest_double_def)
next
  case False
  then have pos: "0 < \<bar>x\<bar>" by simp
  have "nearest_double x - x = (of_int (rne (x / ulp x)) - x / ulp x) * ulp x"
    using False ulp_pos [of x] by (simp add: nearest_double_def field_simps)
  then have "\<bar>nearest_double x - x\<bar> = \<bar>of_int (rne (x / ulp x)) - x / ulp x\<bar> * ulp x"
    using ulp_pos [of x] by (simp add: abs_mult)
  also have "\<dots> \<le> 1/2 * ulp x"
    using rne_error [of "x / ulp x"] ulp_pos [of x] by (intro mult_right_mono) simp_all
  finally have half: "\<bar>nearest_double x - x\<bar> \<le> 1/2 * ulp x" .
  show ?thesis
  proof (cases "- 1022 \<le> \<lfloor>log 2 \<bar>x\<bar>\<rfloor>")
    case True
    then have b: "binade x = \<lfloor>log 2 \<bar>x\<bar>\<rfloor>" by (simp add: binade_def)
    have "of_int \<lfloor>log 2 \<bar>x\<bar>\<rfloor> \<le> log 2 \<bar>x\<bar>" by simp
    then have "2 powr (of_int \<lfloor>log 2 \<bar>x\<bar>\<rfloor>) \<le> \<bar>x\<bar>"
      using pos by (subst (asm) le_log_iff) simp_all
    then have le: "2 powi (binade x) \<le> \<bar>x\<bar>" by (simp only: powr_powi b)
    have "ulp x = 2 powi (binade x) * 2 powi (- 52)"
      unfolding ulp_def by (subst power_int_add [symmetric]) simp_all
    then have "1/2 * ulp x = 2 powi (binade x) / 2 ^ 53"
      by (simp add: power_int_minus field_simps)
    also have "\<dots> \<le> \<bar>x\<bar> / 2 ^ 53" using le by (simp add: divide_right_mono)
    finally have "1/2 * ulp x \<le> \<bar>x\<bar> / 2 ^ 53" .
    moreover have "(0::real) \<le> 1 / 2 ^ 1075" by simp
    ultimately show ?thesis using half by linarith
  next
    case False
    then have b: "binade x = - 1022" by (simp add: binade_def)
    have "1/2 * ulp x = 1 / 2 ^ 1075"
      unfolding ulp_def b by (simp add: power_int_minus)
    moreover have "0 \<le> \<bar>x\<bar> / 2 ^ 53" by simp
    ultimately show ?thesis using half by linarith
  qed
qed

lemma to_double_Some: "to_double x = Some y \<Longrightarrow> y = nearest_double x"
  by (auto simp: to_double_def split: if_splits)

lemma in_double_range_Some: "in_double_range x \<Longrightarrow> to_double x = Some (nearest_double x)"
  by (auto simp: in_double_range_def to_double_def split: if_splits)

lemma in_double_range_unit: "0 \<le> x \<Longrightarrow> x \<le> 1 \<Longrightarrow> in_double_range x"
  by (simp add: in_double_range_def to_double_unit)

lemma nearest_double_0: "nearest_double 0 = 0"
  by (simp add: nearest_double_def)

lemma nearest_double_1: "nearest_double 1 = 1"
  by (subst nearest_double_normal [of 0]) (simp_all add: rne_def power_int_minus)

lemma nearest_double_half: "nearest_double (1/2) = 1/2"
  by (subst nearest_double_normal [of "-1"]) (simp_all add: rne_def power_int_minus)

lemma nearest_double_quarter: "nearest_double (1/4) = 1/4"
  by (subst nearest_double_normal [of "-2"]) (simp_all add: rne_def power_int_minus)

lemma to_double_0: "to_double 0 = Some 0"
  by (simp add: to_double_def nearest_double_0)

lemma to_double_1: "to_double 1 = Some 1"
  by (simp add: to_double_def nearest_double_1)

lemma to_double_half: "to_double (1/2) = Some (1/2)"
  by (simp add: to_double_def nearest_double_half)

lemma to_double_quarter: "to_double (1/4) = Some (1/4)"
  by (simp add: to_double_def nearest_double_quarter)

lemmas demo_doubles = to_double_0 to_double_1 to_double_half to_double_quarter

subsection \<open>The loops over the service's answer\<close>

lemma moves_loop_in_range:
  "tot \<noteq> 0 \<Longrightarrow>
   \<forall>m \<in> set ms. in_double_range (real_of_int (move_games m) / real_of_int tot) \<Longrightarrow>
   moves_loop tot ms acc =
     Inr (acc @ map (\<lambda>m. (uci m,
        nearest_double (real_of_int (move_games m) / real_of_int tot))) ms)"
proof (induction ms arbitrary: acc)
  case Nil
  then show ?case by simp
next
  case (Cons m ms)
  from Cons.prems(2) have
    "to_double (real_of_int (move_white m + move_draws m + move_black m) / real_of_int tot) =
       Some (nearest_double (real_of_int (move_games m) / real_of_int tot))"
    using in_double_range_Some [of "real_of_int (move_games m) / real_of_int tot"]
    by (simp add: move_games_def)
  with Cons show ?case by (simp add: Let_def)
qed

lemma moves_loop_Inr:
  "moves_loop tot ms acc = Inr r \<Longrightarrow>
   (ms = [] \<or> tot \<noteq> 0) \<and>
   (\<forall>m \<in> set ms. in_double_range (real_of_int (move_games m) / real_of_int tot)) \<and>
   r = acc @ map (\<lambda>m. (uci m,
        nearest_double (real_of_int (move_games m) / real_of_int tot))) ms"
proof (induction ms arbitrary: acc)
  case Nil
  then show ?case by simp
next
  case (Cons m ms)
  from Cons.prems have tot: "tot \<noteq> 0" by (auto simp: Let_def split: if_splits)
  from Cons.prems tot obtain y where
    y: "to_double (real_of_int (move_games m) / real_of_int tot) = Some y"
    and rest: "moves_loop tot ms (acc @ [(uci m, y)]) = Inr r"
    by (auto simp: Let_def move_games_def split: option.splits)
  from y have "y = nearest_double (real_of_int (move_games m) / real_of_int tot)"
    by (rule to_double_Some)
  moreover from y have "in_double_range (real_of_int (move_games m) / real_of_int tot)"
    by (simp add: in_double_range_def)
  ultimately show ?case using Cons.IH [OF rest] tot by simp
qed

lemma moves_loop_zero:
  "moves_loop 0 ms acc = (if ms = [] then Inr acc else Inl ZeroDivisionError)"
  by (cases ms) (simp_all add: Let_def)

lemma positions_loop_legal:
  "board p < length h \<Longrightarrow>
   \<forall>nm \<in> set nms. legal e (h ! board p) (fst nm) \<and> in_double_range (probability p * snd nm) \<Longrightarrow>
   positions_loop e p nms h acc =
     Inr (h @ map (\<lambda>nm. push (h ! board p) (fst nm)) nms,
          acc @ map (\<lambda>(i, nm). \<lparr>board = i, probability = nearest_double (probability p * snd nm)\<rparr>)
                  (enumerate (length h) nms))"
proof (induction nms arbitrary: h acc)
  case Nil
  then show ?case by simp
next
  case (Cons nm nms)
  let ?b = "push (h ! board p) (fst nm)"
  let ?q = "nearest_double (probability p * snd nm)"
  have bp: "(h @ [?b]) ! board p = h ! board p"
    using Cons.prems(1) by (simp add: nth_append)
  have td: "to_double (probability p * snd nm) = Some ?q"
    using Cons.prems(2) by (simp add: in_double_range_Some)
  have "positions_loop e p (nm # nms) h acc =
      positions_loop e p nms (h @ [?b]) (acc @ [\<lparr>board = length h, probability = ?q\<rparr>])"
    using Cons.prems td by (simp add: copy_def push_uci_def nth_append)
  also have "\<dots> = Inr ((h @ [?b]) @ map (\<lambda>nm. push ((h @ [?b]) ! board p) (fst nm)) nms,
       (acc @ [\<lparr>board = length h, probability = ?q\<rparr>]) @
          map (\<lambda>(i, nm). \<lparr>board = i, probability = nearest_double (probability p * snd nm)\<rparr>)
                  (enumerate (length (h @ [?b])) nms))"
    using Cons.prems by (intro Cons.IH) (simp_all add: bp)
  finally show ?case by (simp add: bp)
qed

lemma positions_loop_Inr:
  "board p < length h \<Longrightarrow> positions_loop e p nms h acc = Inr r \<Longrightarrow>
   \<forall>nm \<in> set nms. legal e (h ! board p) (fst nm) \<and> in_double_range (probability p * snd nm)"
proof (induction nms arbitrary: h acc)
  case Nil
  then show ?case by simp
next
  case (Cons nm nms)
  let ?b = "push (h ! board p) (fst nm)"
  have bp: "(h @ [?b]) ! board p = h ! board p"
    using Cons.prems(1) by (simp add: nth_append)
  have l: "legal e (h ! board p) (fst nm)"
    using Cons.prems by (auto simp: copy_def push_uci_def nth_append split: if_splits)
  with Cons.prems obtain y where y: "to_double (probability p * snd nm) = Some y"
    and rest: "positions_loop e p nms (h @ [?b])
        (acc @ [\<lparr>board = length h, probability = y\<rparr>]) = Inr r"
    by (auto simp: copy_def push_uci_def nth_append split: option.splits)
  from y have d: "in_double_range (probability p * snd nm)"
    by (simp add: in_double_range_def)
  from Cons.IH [OF _ rest] Cons.prems(1)
  have "\<forall>nm \<in> set nms. legal e (h ! board p) (fst nm) \<and> in_double_range (probability p * snd nm)"
    by (simp add: bp)
  with l d show ?case by simp
qed

lemma positions_loop_probabilities:
  "positions_loop e p nms h acc = Inr (h', cs) \<Longrightarrow>
   map probability cs =
     map probability acc @ map (\<lambda>nm. nearest_double (probability p * snd nm)) nms"
proof (induction nms arbitrary: h acc)
  case Nil
  then show ?case by simp
next
  case (Cons nm nms)
  from Cons.prems obtain b y where
    y: "to_double (probability p * snd nm) = Some y"
    and rest: "positions_loop e p nms ((h @ [h ! board p])[length h := b])
        (acc @ [\<lparr>board = length h, probability = y\<rparr>]) = Inr (h', cs)"
    by (auto simp: copy_def split: sum.splits option.splits)
  from Cons.IH [OF rest] to_double_Some [OF y] show ?case by simp
qed

subsection \<open>The scan for the maximum\<close>

lemma max_scan_le:
  "\<forall>p \<in> set ps. probability p \<le> mp \<Longrightarrow> max_scan ps idx mi mp = mi"
  by (induction ps arbitrary: idx) auto

lemma max_scan_Some:
  "\<exists>p \<in> set ps. mp < probability p \<Longrightarrow>
   \<exists>j < length ps. max_scan ps idx mi mp = Some (idx + j) \<and> mp < probability (ps ! j) \<and>
     (\<forall>i < length ps. probability (ps ! i) \<le> probability (ps ! j)) \<and>
     (\<forall>i < j. probability (ps ! i) < probability (ps ! j))"
proof (induction ps arbitrary: idx mi mp)
  case Nil
  then show ?case by simp
next
  case (Cons x xs)
  show ?case
  proof (cases "mp < probability x")
    case True
    show ?thesis
    proof (cases "\<exists>p \<in> set xs. probability x < probability p")
      case ex: True
      from Cons.IH [OF ex, of "Suc idx" "Some idx"] obtain j where j: "j < length xs"
        "max_scan xs (Suc idx) (Some idx) (probability x) = Some (Suc idx + j)"
        "probability x < probability (xs ! j)"
        "\<forall>i < length xs. probability (xs ! i) \<le> probability (xs ! j)"
        "\<forall>i < j. probability (xs ! i) < probability (xs ! j)"
        by blast
      have "\<forall>i < length (x # xs). probability ((x # xs) ! i) \<le> probability ((x # xs) ! Suc j)"
        using j by (auto simp: nth_Cons split: nat.splits)
      moreover have "\<forall>i < Suc j. probability ((x # xs) ! i) < probability ((x # xs) ! Suc j)"
        using j by (auto simp: nth_Cons split: nat.splits)
      ultimately show ?thesis
        using True j by (intro exI [of _ "Suc j"]) auto
    next
      case False
      then have le: "\<forall>p \<in> set xs. probability p \<le> probability x" by auto
      have "\<forall>i < length (x # xs). probability ((x # xs) ! i) \<le> probability ((x # xs) ! 0)"
        using le by (auto simp: nth_Cons split: nat.splits)
      then show ?thesis
        using True max_scan_le [OF le] by (intro exI [of _ 0]) auto
    qed
  next
    case False
    with Cons.prems have ex: "\<exists>p \<in> set xs. mp < probability p" by auto
    from Cons.IH [OF ex, of "Suc idx" mi] obtain j where j: "j < length xs"
      "max_scan xs (Suc idx) mi mp = Some (Suc idx + j)"
      "mp < probability (xs ! j)"
      "\<forall>i < length xs. probability (xs ! i) \<le> probability (xs ! j)"
      "\<forall>i < j. probability (xs ! i) < probability (xs ! j)"
      by blast
    have "\<forall>i < length (x # xs). probability ((x # xs) ! i) \<le> probability ((x # xs) ! Suc j)"
      using j False by (auto simp: nth_Cons split: nat.splits)
    moreover have "\<forall>i < Suc j. probability ((x # xs) ! i) < probability ((x # xs) ! Suc j)"
      using j False by (auto simp: nth_Cons split: nat.splits)
    ultimately show ?thesis
      using False j by (intro exI [of _ "Suc j"]) auto
  qed
qed

subsection \<open>Expansion in closed form\<close>

lemma positions_expand:
  assumes "board p < length h" "get_most_common_positions e h p = Inr (h', cs)"
  shows "\<exists>nms. get_most_common_moves_from_lichess e (h ! board p) = Inr nms \<and>
     (\<forall>nm \<in> set nms. legal e (h ! board p) (fst nm) \<and> in_double_range (probability p * snd nm)) \<and>
     h' = h @ map (\<lambda>nm. push (h ! board p) (fst nm)) nms \<and>
     cs = map (\<lambda>(i, nm). \<lparr>board = i, probability = nearest_double (probability p * snd nm)\<rparr>)
            (enumerate (length h) nms)"
proof -
  from assms(2) obtain nms where
    nms: "get_most_common_moves_from_lichess e (h ! board p) = Inr nms"
    and pl: "positions_loop e p nms h [] = Inr (h', cs)"
    by (auto simp: get_most_common_positions_def split: sum.splits)
  from positions_loop_Inr [OF assms(1) pl]
  have l: "\<forall>nm \<in> set nms. legal e (h ! board p) (fst nm) \<and>
      in_double_range (probability p * snd nm)" .
  from positions_loop_legal [OF assms(1) l, of "[]"] pl nms l show ?thesis by simp
qed

text \<open>The candidates the program derives from an answer of the service.\<close>

lemma candidates_of_answer:
  assumes "call_api e (fen e b) = Some r" "moves r = [] \<or> total_games r \<noteq> 0"
    "\<forall>mv \<in> set (moves r). in_double_range (share r mv)"
  shows "get_most_common_moves_from_lichess e b =
     Inr (map (\<lambda>mv. (uci mv, nearest_double (share r mv))) (moves r))"
proof (cases "moves r = []")
  case True
  with assms(1) show ?thesis by (simp add: get_most_common_moves_from_lichess_def)
next
  case False
  with assms(2) have "total_games r \<noteq> 0" by simp
  from moves_loop_in_range [OF this, of "moves r" "[]"] assms(1,3) show ?thesis
    by (simp add: get_most_common_moves_from_lichess_def total_games_def share_def)
qed

lemma answer_of_candidates:
  assumes "get_most_common_moves_from_lichess e b = Inr nms"
  shows "\<exists>r. call_api e (fen e b) = Some r \<and> (moves r = [] \<or> total_games r \<noteq> 0) \<and>
     (\<forall>mv \<in> set (moves r). in_double_range (share r mv)) \<and>
     nms = map (\<lambda>mv. (uci mv, nearest_double (share r mv))) (moves r)"
proof -
  from assms obtain r where r: "call_api e (fen e b) = Some r"
    and ml: "moves_loop (total_games r) (moves r) [] = Inr nms"
    by (auto simp: get_most_common_moves_from_lichess_def total_games_def split: option.splits)
  from moves_loop_Inr [OF ml] r show ?thesis by (simp add: share_def)
qed

section \<open>Repertoire lookup at play time\<close>

text \<open>
  Claim C4. Whatever the repertoire and the board: when the serialisation of the board is a
  key of the repertoire, \<open>play_repertoire_move\<close> returns \<open>True\<close> and the board (the
  object at address \<open>a\<close>) has the prescribed move pushed, every other object of the store
  being as before; when it is not a key, the function returns \<open>False\<close> and the store is
  unchanged. In both cases the function returns a value (\<open>Inr\<close>): the \<^verbatim>\<open>KeyError\<close> of
  the missing key does not reach the caller.
\<close>

theorem play_repertoire_move_hit_or_miss:
  "(repertoire (fen e (h ! a)) = Some m \<longrightarrow>
      play_repertoire_move e repertoire h a = Inr (True, h[a := push (h ! a) m])) \<and>
   (repertoire (fen e (h ! a)) = None \<longrightarrow>
      play_repertoire_move e repertoire h a = Inr (False, h))"
  by (simp add: play_repertoire_move_def getitem_def)

theorem play_repertoire_move_hit_or_miss_witness:
  "[demo_fen Board \<mapsto> ''d2d4''] (fen demo_env ([Board] ! 0)) = Some ''d2d4'' \<and>
   play_repertoire_move demo_env [demo_fen Board \<mapsto> ''d2d4''] [Board] 0 =
     Inr (True, [push Board ''d2d4'']) \<and>
   [demo_fen Board \<mapsto> ''d2d4''] (fen demo_env ([push Board ''e2e4''] ! 0)) = None \<and>
   play_repertoire_move demo_env [demo_fen Board \<mapsto> ''d2d4''] [push Board ''e2e4''] 0 =
     Inr (False, [push Board ''e2e4''])"
  using play_repertoire_move_hit_or_miss
      [of "[demo_fen Board \<mapsto> ''d2d4'']" demo_env "[Board]" 0 "''d2d4''"]
    play_repertoire_move_hit_or_miss
      [of "[demo_fen Board \<mapsto> ''d2d4'']" demo_env "[push Board ''e2e4'']" 0]
  by (simp add: demo_env_def demo_fen_def Board_def push_def)

section \<open>Answers that record no game\<close>

text \<open>
  Claim C6, as the program has it. When the answer of the service records no game at all
  (white + draws + black = 0), \<open>get_most_common_moves_from_lichess\<close> returns the empty
  list of candidates if the answer lists no move, and fails with a division by zero as
  soon as the answer lists a move: the program has no test of the total.
\<close>

theorem no_games_recorded:
  assumes "call_api e (fen e b) = Some r" "white r + draws r + black r = 0"
  shows "get_most_common_moves_from_lichess e b =
           (if moves r = [] then Inr [] else Inl ZeroDivisionError)"
  using assms by (simp add: get_most_common_moves_from_lichess_def moves_loop_zero)

theorem no_games_recorded_witness:
  "call_api demo_env
     (fen demo_env (push (push (push (push Board ''d2d4'') ''d7d5'') ''c2c4'') ''e7e6''))
     = Some \<lparr>white = 0, draws = 0, black = 0, moves = []\<rparr> \<and>
   get_most_common_moves_from_lichess demo_env
     (push (push (push (push Board ''d2d4'') ''d7d5'') ''c2c4'') ''e7e6'') = Inr []"
  using no_games_recorded [of demo_env
      "push (push (push (push Board ''d2d4'') ''d7d5'') ''c2c4'') ''e7e6''"
      "\<lparr>white = 0, draws = 0, black = 0, moves = []\<rparr>"]
  by (simp add: demo_env_def demo_fen_def demo_api_def d4_answer_def c4_answer_def Board_def push_def)

text \<open>
  The claim as the specification words it fails: here the total is zero, a move is listed,
  and the division by zero is raised.
\<close>

theorem no_games_recorded_counterexample:
  "call_api no_games_env (fen no_games_env Board) =
     Some \<lparr>white = 0, draws = 0, black = 0, moves =
         [\<lparr>uci = ''a2a3'', move_white = 0, move_draws = 0, move_black = 0\<rparr>]\<rparr> \<and>
   get_most_common_moves_from_lichess no_games_env Board = Inl ZeroDivisionError"
  by (simp add: get_most_common_moves_from_lichess_def no_games_env_def no_games_api_def
      demo_fen_def Board_def)

section \<open>Selection\<close>

text \<open>
  Claim C7. For a frontier that holds a node of positive probability (hence is not empty),
  \<open>pop_most_probable_node\<close> succeeds: it returns the node at some index \<open>i\<close> together
  with the list without that index, no node of the list has a greater probability than the
  one returned, and every node before index \<open>i\<close> has a strictly smaller one, so the node
  returned is the first that attains the maximum. The function is a function of the list
  alone, so the choice is deterministic.
\<close>

theorem pop_most_probable_node_first_maximum:
  assumes "\<exists>p \<in> set ls. 0 < probability p"
  shows "\<exists>i < length ls.
     pop_most_probable_node ls =
       Inr (ls ! i, take i ls @ drop (Suc i) ls) \<and>
     (\<forall>j < length ls.
        probability (ls ! j) \<le> probability (ls ! i)) \<and>
     (\<forall>j < i. probability (ls ! j) < probability (ls ! i))"
proof -
  from max_scan_Some [OF assms, of 0 None] obtain j where
    "j < length ls" "max_scan ls 0 None 0 = Some j"
    "\<forall>i < length ls. probability (ls ! i) \<le> probability (ls ! j)"
    "\<forall>i < j. probability (ls ! i) < probability (ls ! j)"
    by auto
  then show ?thesis
    by (intro exI [of _ j]) (simp add: pop_most_probable_node_def list_pop_def)
qed

theorem pop_most_probable_node_first_maximum_witness:
  "(\<exists>p \<in> set [\<lparr>board = 0, probability = 1/5\<rparr>, \<lparr>board = 1, probability = 1/2\<rparr>,
               \<lparr>board = 2, probability = 1/2\<rparr>]. 0 < probability p) \<and>
   pop_most_probable_node [\<lparr>board = 0, probability = 1/5\<rparr>, \<lparr>board = 1, probability = 1/2\<rparr>,
               \<lparr>board = 2, probability = 1/2\<rparr>] =
     Inr (\<lparr>board = 1, probability = 1/2\<rparr>,
          [\<lparr>board = 0, probability = 1/5\<rparr>, \<lparr>board = 2, probability = 1/2\<rparr>])"
proof -
  let ?ls = "[\<lparr>board = 0, probability = 1/5\<rparr>, \<lparr>board = 1, probability = 1/2\<rparr>,
               \<lparr>board = 2, probability = 1/2::real\<rparr>]"
  have pos: "\<exists>p \<in> set ?ls. 0 < probability p" by simp
  have "pop_most_probable_node ?ls = Inr (\<lparr>board = 1, probability = 1/2\<rparr>,
          [\<lparr>board = 0, probability = 1/5\<rparr>, \<lparr>board = 2, probability = 1/2\<rparr>])"
    by (simp add: pop_most_probable_node_def list_pop_def)
  with pos pop_most_probable_node_first_maximum [OF pos] show ?thesis by simp
qed

section \<open>Expansion\<close>

subsection \<open>The concrete setting, run\<close>

lemma demo_legal: "legal demo_env b u"
  by (simp add: demo_env_def)

lemma demo_moves:
  "get_most_common_moves_from_lichess demo_env (push Board ''d2d4'') =
     Inr [(''d7d5'', 1/2), (''g8f6'', 1/4)]"
  by (simp add: get_most_common_moves_from_lichess_def demo_doubles
      demo_env_def demo_api_def d4_answer_def c4_answer_def demo_fen_def push_def Board_def Let_def)

lemma demo_expand:
  "get_most_common_positions demo_env [push Board ''d2d4''] \<lparr>board = 0, probability = 1\<rparr> =
     Inr ([push Board ''d2d4'', push (push Board ''d2d4'') ''d7d5'',
           push (push Board ''d2d4'') ''g8f6''],
          [\<lparr>board = 1, probability = 1/2\<rparr>, \<lparr>board = 2, probability = 1/4\<rparr>])"
  by (simp add: get_most_common_positions_def demo_moves demo_doubles copy_def push_uci_def
      demo_legal)

subsection \<open>The parent of an expansion\<close>

text \<open>
  Claim C10. \<open>get_most_common_positions\<close> does not touch the node it expands. The node
  is a value, so its probability cannot change; its board is an object of the store, and
  after the expansion every object the store held before, the parent's board among them, is
  as it was (the old store is a prefix of the new one). The board of the \<open>i\<close>-th child is
  a new object, at an address the old store did not have and that no other child has, and
  it holds the parent's board with the \<open>i\<close>-th candidate move pushed.
\<close>

theorem get_most_common_positions_leaves_parent:
  assumes "board position < length h" "get_most_common_positions e h position = Inr (h', children)"
  shows "\<exists>next_moves.
     get_most_common_moves_from_lichess e (h ! board position) = Inr next_moves \<and>
     take (length h) h' = h \<and> h' ! board position = h ! board position \<and>
     length h' = length h + length next_moves \<and>
     length children = length next_moves \<and>
     (\<forall>i < length next_moves.
        board (children ! i) = length h + i \<and>
        h' ! board (children ! i) = push (h ! board position) (fst (next_moves ! i)))"
proof -
  from positions_expand [OF assms] obtain nms where
    nms: "get_most_common_moves_from_lichess e (h ! board position) = Inr nms"
    and h': "h' = h @ map (\<lambda>nm. push (h ! board position) (fst nm)) nms"
    and cs: "children = map (\<lambda>(i, nm).
              \<lparr>board = i, probability = nearest_double (probability position * snd nm)\<rparr>)
            (enumerate (length h) nms)"
    by blast
  have "\<forall>i < length nms. board (children ! i) = length h + i \<and>
        h' ! board (children ! i) = push (h ! board position) (fst (nms ! i))"
    by (simp add: cs h' nth_enumerate_eq nth_append)
  with nms h' cs assms(1) show ?thesis
    by (intro exI [of _ nms]) (simp add: nth_append)
qed

theorem get_most_common_positions_leaves_parent_witness:
  "board \<lparr>board = 0, probability = 1\<rparr> < length [push Board ''d2d4''] \<and>
   get_most_common_positions demo_env [push Board ''d2d4''] \<lparr>board = 0, probability = 1\<rparr> =
     Inr ([push Board ''d2d4'', push (push Board ''d2d4'') ''d7d5'',
           push (push Board ''d2d4'') ''g8f6''],
          [\<lparr>board = 1, probability = 1/2\<rparr>, \<lparr>board = 2, probability = 1/4\<rparr>]) \<and>
   (\<exists>next_moves.
      get_most_common_moves_from_lichess demo_env ([push Board ''d2d4''] ! 0) = Inr next_moves \<and>
      length next_moves = 2 \<and>
      [push Board ''d2d4'', push (push Board ''d2d4'') ''d7d5'',
           push (push Board ''d2d4'') ''g8f6''] ! 2 =
        push ([push Board ''d2d4''] ! 0) (fst (next_moves ! 1)))"
proof -
  have b: "board \<lparr>board = 0, probability = 1\<rparr> < length [push Board ''d2d4'']" by simp
  from get_most_common_positions_leaves_parent [OF b demo_expand] demo_expand
  show ?thesis by (auto simp: demo_moves)
qed

subsection \<open>Conservation of probability\<close>

lemma rounded_products_sum:
  "\<bar>sum_list (map (\<lambda>x. nearest_double (p * x)) xs) - p * sum_list xs\<bar>
     \<le> sum_list (map (\<lambda>x. \<bar>p * x\<bar>) xs) / 2 ^ 53 + real (length xs) / 2 ^ 1075"
proof (induction xs)
  case Nil
  then show ?case by simp
next
  case (Cons x xs)
  let ?d = "sum_list (map (\<lambda>x. nearest_double (p * x)) xs) - p * sum_list xs"
  have "sum_list (map (\<lambda>x. nearest_double (p * x)) (x # xs)) - p * sum_list (x # xs) =
      (nearest_double (p * x) - p * x) + ?d"
    by (simp add: algebra_simps)
  then have "\<bar>sum_list (map (\<lambda>x. nearest_double (p * x)) (x # xs)) - p * sum_list (x # xs)\<bar>
      \<le> \<bar>nearest_double (p * x) - p * x\<bar> + \<bar>?d\<bar>"
    by (simp only: abs_triangle_ineq)
  also have "\<dots> \<le> (\<bar>p * x\<bar> / 2 ^ 53 + 1 / 2 ^ 1075) +
      (sum_list (map (\<lambda>x. \<bar>p * x\<bar>) xs) / 2 ^ 53 + real (length xs) / 2 ^ 1075)"
    by (intro add_mono nearest_double_relative_error Cons.IH)
  also have "\<dots> = sum_list (map (\<lambda>x. \<bar>p * x\<bar>) (x # xs)) / 2 ^ 53 +
      real (length (x # xs)) / 2 ^ 1075"
    by (simp add: add_divide_distrib)
  finally show ?case .
qed

lemma nonneg_products_sum:
  "0 \<le> (p::real) \<Longrightarrow> list_all (\<lambda>x. 0 \<le> x) xs \<Longrightarrow>
   sum_list (map (\<lambda>x. \<bar>p * x\<bar>) xs) = p * sum_list xs"
proof (induction xs)
  case Nil
  then show ?case by simp
next
  case (Cons x xs)
  then have "0 \<le> p * x" by simp
  then have "\<bar>p * x\<bar> = p * x" by (rule abs_of_nonneg)
  with Cons show ?case by (simp add: algebra_simps)
qed

text \<open>
  Claim C8, as the program has it. The probability of a child is the product of the parent's
  probability and the candidate's relative probability, rounded to the nearest double. The
  children's probabilities (added as real numbers) therefore equal the parent's probability
  times the sum of the relative probabilities only up to the rounding of each product: the
  two differ by at most \<open>2\<^sup>-\<^sup>5\<^sup>3\<close> of the sum of the magnitudes of the exact products, plus
  \<open>2\<^sup>-\<^sup>1\<^sup>0\<^sup>7\<^sup>5\<close> for each child. When the parent's probability is not negative, no relative
  probability is negative and the relative probabilities add up to at most 1, the children's
  probabilities add up to at most the parent's probability times \<open>1 + 2\<^sup>-\<^sup>5\<^sup>3\<close>, plus
  \<open>2\<^sup>-\<^sup>1\<^sup>0\<^sup>7\<^sup>5\<close> for each child.
\<close>

theorem expansion_nearly_conserves_probability:
  assumes "get_most_common_positions e h position = Inr (h', children)"
  shows "\<exists>next_moves.
     get_most_common_moves_from_lichess e (h ! board position) = Inr next_moves \<and>
     map probability children =
       map (\<lambda>nm. nearest_double (probability position * snd nm)) next_moves \<and>
     \<bar>sum_list (map probability children) -
        probability position * sum_list (map snd next_moves)\<bar>
       \<le> sum_list (map (\<lambda>nm. \<bar>probability position * snd nm\<bar>) next_moves) / 2 ^ 53 +
          real (length next_moves) / 2 ^ 1075 \<and>
     (0 \<le> probability position \<and> list_all (\<lambda>nm. 0 \<le> snd nm) next_moves \<and>
      sum_list (map snd next_moves) \<le> 1 \<longrightarrow>
        sum_list (map probability children)
          \<le> probability position + probability position / 2 ^ 53 +
             real (length next_moves) / 2 ^ 1075)"
proof -
  let ?p = "probability position"
  from assms obtain nms where
    nms: "get_most_common_moves_from_lichess e (h ! board position) = Inr nms"
    and pl: "positions_loop e position nms h [] = Inr (h', children)"
    by (auto simp: get_most_common_positions_def split: sum.splits)
  let ?xs = "map snd nms"
  from positions_loop_probabilities [OF pl]
  have ps: "map probability children = map (\<lambda>nm. nearest_double (?p * snd nm)) nms"
    by simp
  then have s: "sum_list (map probability children) =
      sum_list (map (\<lambda>x. nearest_double (?p * x)) ?xs)"
    by (simp add: comp_def)
  have m: "sum_list (map (\<lambda>nm. \<bar>?p * snd nm\<bar>) nms) = sum_list (map (\<lambda>x. \<bar>?p * x\<bar>) ?xs)"
    by (simp add: comp_def)
  have err: "\<bar>sum_list (map probability children) - ?p * sum_list ?xs\<bar>
       \<le> sum_list (map (\<lambda>nm. \<bar>?p * snd nm\<bar>) nms) / 2 ^ 53 + real (length nms) / 2 ^ 1075"
    using rounded_products_sum [of ?p ?xs] by (simp only: s m length_map)
  have "sum_list (map probability children) \<le> ?p + ?p / 2 ^ 53 + real (length nms) / 2 ^ 1075"
    if a: "0 \<le> ?p \<and> list_all (\<lambda>nm. 0 \<le> snd nm) nms \<and> sum_list ?xs \<le> 1"
  proof -
    from a have "list_all (\<lambda>x. 0 \<le> x) ?xs" by (simp add: list_all_iff)
    with a have e: "sum_list (map (\<lambda>x. \<bar>?p * x\<bar>) ?xs) = ?p * sum_list ?xs"
      by (intro nonneg_products_sum) simp_all
    from a have le: "?p * sum_list ?xs \<le> ?p" by (simp add: mult_left_le)
    then have "?p * sum_list ?xs / 2 ^ 53 \<le> ?p / 2 ^ 53" by (simp add: divide_right_mono)
    moreover from err have "\<bar>sum_list (map probability children) - ?p * sum_list ?xs\<bar>
       \<le> ?p * sum_list ?xs / 2 ^ 53 + real (length nms) / 2 ^ 1075"
      by (simp only: m e)
    ultimately show ?thesis using le by linarith
  qed
  with nms ps err show ?thesis by blast
qed

theorem expansion_nearly_conserves_probability_witness:
  "get_most_common_positions demo_env [push Board ''d2d4''] \<lparr>board = 0, probability = 1\<rparr> =
     Inr ([push Board ''d2d4'', push (push Board ''d2d4'') ''d7d5'',
           push (push Board ''d2d4'') ''g8f6''],
          [\<lparr>board = 1, probability = 1/2\<rparr>, \<lparr>board = 2, probability = 1/4\<rparr>]) \<and>
   get_most_common_moves_from_lichess demo_env ([push Board ''d2d4''] ! 0) =
     Inr [(''d7d5'', 1/2), (''g8f6'', 1/4)] \<and>
   (0::real) \<le> 1 \<and> list_all (\<lambda>nm. 0 \<le> snd nm) [(''d7d5'', 1/2), (''g8f6'', 1/4::real)] \<and>
   sum_list (map snd [(''d7d5'', 1/2), (''g8f6'', 1/4::real)]) \<le> 1 \<and>
   sum_list (map probability [\<lparr>board = 1, probability = 1/2\<rparr>, \<lparr>board = 2, probability = 1/4\<rparr>])
     \<le> 1 + 1 / 2 ^ 53 + real (length [(''d7d5'', 1/2), (''g8f6'', 1/4::real)]) / 2 ^ 1075"
  using expansion_nearly_conserves_probability [OF demo_expand] demo_expand
  by (auto simp: demo_moves)

text \<open>
  The claim as the specification words it fails. A node reached in seven of nine games has
  the probability \<open>7005599420354105 / 2\<^sup>5\<^sup>3\<close>, the double nearest to 7/9. When the service
  lists three moves with two, three and three of eight games, the relative probabilities
  are 1/4, 3/8 and 3/8 and add up to 1; the probabilities of the three children are the
  rounded products and add up to \<open>2\<^sup>-\<^sup>5\<^sup>5\<close> more than the probability of the node.
\<close>

theorem expansion_conserves_probability_counterexample:
  "to_double (real_of_int 7 / real_of_int 9) = Some (probability seven_ninths) \<and>
   get_most_common_moves_from_lichess eighths_env ([Board] ! board seven_ninths) =
     Inr [(''a2a3'', 1/4), (''b2b3'', 3/8), (''c2c3'', 3/8)] \<and>
   get_most_common_positions eighths_env [Board] seven_ninths =
     Inr ([Board, push Board ''a2a3'', push Board ''b2b3'', push Board ''c2c3''],
          [\<lparr>board = 1, probability = 7005599420354105 / 36028797018963968\<rparr>,
           \<lparr>board = 2, probability = 5254199565265579 / 18014398509481984\<rparr>,
           \<lparr>board = 3, probability = 5254199565265579 / 18014398509481984\<rparr>]) \<and>
   sum_list (map snd [(''a2a3'', 1/4), (''b2b3'', 3/8), (''c2c3'', 3/8::real)]) = 1 \<and>
   sum_list (map probability
       [\<lparr>board = 1, probability = 7005599420354105 / 36028797018963968\<rparr>,
        \<lparr>board = 2, probability = 5254199565265579 / 18014398509481984\<rparr>,
        \<lparr>board = 3, probability = 5254199565265579 / 18014398509481984\<rparr>])
     = probability seven_ninths * 1 + 1 / 2 ^ 55"
proof -
  have q: "nearest_double (1/4) = 1/4"
    by (rule nearest_double_quarter)
  have e: "nearest_double (3/8) = 3/8"
    by (subst nearest_double_normal [of "-2"]) (simp_all add: rne_def power_int_minus)
  have n: "nearest_double (7/9) = 7005599420354105 / 9007199254740992"
    by (subst nearest_double_normal [of "-1"]) (simp_all add: rne_def power_int_minus)
  have a: "nearest_double (7005599420354105 / 36028797018963968) =
      7005599420354105 / 36028797018963968"
    by (subst nearest_double_normal [of "-3"]) (simp_all add: rne_def power_int_minus)
  have b: "nearest_double (21016798261062315 / 72057594037927936) =
      5254199565265579 / 18014398509481984"
    by (subst nearest_double_normal [of "-2"]) (simp_all add: rne_def power_int_minus)
  have m: "get_most_common_moves_from_lichess eighths_env Board =
     Inr [(''a2a3'', 1/4), (''b2b3'', 3/8), (''c2c3'', 3/8)]"
    by (simp add: get_most_common_moves_from_lichess_def eighths_env_def eighths_api_def
        demo_fen_def Board_def Let_def to_double_def q e)
  have l: "legal eighths_env b u" for b u
    by (simp add: eighths_env_def)
  have x: "get_most_common_positions eighths_env [Board] seven_ninths =
     Inr ([Board, push Board ''a2a3'', push Board ''b2b3'', push Board ''c2c3''],
          [\<lparr>board = 1, probability = 7005599420354105 / 36028797018963968\<rparr>,
           \<lparr>board = 2, probability = 5254199565265579 / 18014398509481984\<rparr>,
           \<lparr>board = 3, probability = 5254199565265579 / 18014398509481984\<rparr>])"
    by (simp add: get_most_common_positions_def seven_ninths_def m copy_def push_uci_def
        l to_double_def a b)
  have t: "to_double (real_of_int 7 / real_of_int 9) = Some (probability seven_ninths)"
    by (simp add: to_double_def n seven_ninths_def)
  from m x t show ?thesis by (simp add: seven_ninths_def)
qed

section \<open>The main loop\<close>

subsection \<open>The concrete setting, searched\<close>

lemma demo_Repertoire: "Repertoire demo_env [demo_game] False = Inr demo_repertoire"
  by (simp add: Repertoire_def demo_game_def index_nodes.simps demo_env_def demo_repertoire_def)

lemma demo_initial_state: "initial_state demo_env False = Inr demo_start"
  by (simp add: initial_state_def demo_start_def)

lemma demo_pop:
  "pop_most_probable_node (leaf_positions demo_start) = Inr (\<lparr>board = 0, probability = 1\<rparr>, [])"
  by (simp add: demo_start_def pop_most_probable_node_def list_pop_def)

lemma demo_pop1:
  "pop_most_probable_node (leaf_positions demo_state) =
     Inr (\<lparr>board = 1, probability = 1/2\<rparr>, [\<lparr>board = 2, probability = 1/4\<rparr>])"
  by (simp add: demo_state_def pop_most_probable_node_def list_pop_def)

lemma demo_pop2:
  "pop_most_probable_node (leaf_positions demo_state2) =
     Inr (\<lparr>board = 2, probability = 1/4\<rparr>, [\<lparr>board = 3, probability = 1/4\<rparr>])"
  by (simp add: demo_state2_def pop_most_probable_node_def list_pop_def)

lemma demo_pass1: "loop_body demo_env demo_repertoire k demo_start = Continue demo_state"
  by (simp add: demo_start_def demo_state_def loop_body_def pop_most_probable_node_def
      list_pop_def play_repertoire_move_def getitem_def get_most_common_positions_def
      get_most_common_moves_from_lichess_def demo_env_def demo_api_def d4_answer_def c4_answer_def demo_fen_def
      demo_repertoire_def push_def Board_def Let_def copy_def push_uci_def demo_doubles)

lemma demo_pass2: "loop_body demo_env demo_repertoire k demo_state = Continue demo_state2"
  by (simp add: demo_state_def demo_state2_def demo_heap_def loop_body_def pop_most_probable_node_def
      list_pop_def play_repertoire_move_def getitem_def get_most_common_positions_def
      get_most_common_moves_from_lichess_def demo_env_def demo_api_def d4_answer_def c4_answer_def demo_fen_def
      demo_repertoire_def push_def Board_def Let_def copy_def push_uci_def demo_doubles)

lemma demo_pass3:
  "loop_body demo_env demo_repertoire k demo_state2 =
     (if k = 1 then Return demo_state3 else Continue demo_state3)"
  by (simp add: demo_state2_def demo_state3_def demo_heap_def loop_body_def pop_most_probable_node_def
      list_pop_def play_repertoire_move_def getitem_def get_most_common_positions_def
      get_most_common_moves_from_lichess_def demo_env_def demo_api_def d4_answer_def c4_answer_def demo_fen_def
      demo_repertoire_def push_def Board_def Let_def copy_def push_uci_def demo_doubles)

lemma demo_pass4:
  "loop_body demo_env demo_repertoire k demo_state3 =
     (if k = 2 then Return demo_final else Continue demo_final)"
  by (simp add: demo_state3_def demo_final_def demo_heap_def loop_body_def pop_most_probable_node_def
      list_pop_def play_repertoire_move_def getitem_def get_most_common_positions_def
      get_most_common_moves_from_lichess_def demo_env_def demo_api_def d4_answer_def c4_answer_def demo_fen_def
      demo_repertoire_def push_def Board_def Let_def copy_def push_uci_def demo_doubles)

lemma demo_frontiers:
  "leaf_positions demo_start \<noteq> []" "leaf_positions demo_state \<noteq> []"
  "leaf_positions demo_state2 \<noteq> []" "leaf_positions demo_state3 \<noteq> []"
  "leaf_positions demo_final = []"
  by (simp_all add: demo_start_def demo_state_def demo_state2_def demo_state3_def demo_final_def)

lemma demo_reach: "reach demo_env demo_repertoire k demo_start demo_state"
  by (rule reach_step [OF reach_start _ demo_pass1]) (simp add: demo_frontiers)

lemma demo_reach2: "reach demo_env demo_repertoire k demo_start demo_state2"
  by (rule reach_step [OF demo_reach _ demo_pass2]) (simp add: demo_frontiers)

lemma demo_run:
  "run 3 demo_env [demo_game] False 1 = Some (Inr (Reached, demo_state3))"
  by (simp add: run_def demo_Repertoire demo_initial_state numeral_3_eq_3 demo_frontiers
      demo_pass1 demo_pass2 demo_pass3)

lemma demo_run_exhausted:
  "run 4 demo_env [demo_game] False 3 = Some (Inr (Exhausted, demo_final))"
proof -
  have "run (Suc (Suc (Suc (Suc 0)))) demo_env [demo_game] False 3 =
      Some (Inr (Exhausted, demo_final))"
    by (simp add: run_def demo_Repertoire demo_initial_state demo_frontiers
        demo_pass1 demo_pass2 demo_pass3 demo_pass4)
  then show ?thesis by (simp add: eval_nat_numeral)
qed

subsection \<open>One pass of the loop\<close>

lemma map_enumerate_map:
  "map f (enumerate n (map g xs)) = map (\<lambda>(i, x). f (i, g x)) (enumerate n xs)"
  by (induction xs arbitrary: n) simp_all

text \<open>
  Claim C2. Take a pass of the loop in which \<open>pop_most_probable_node\<close> returns
  \<open>node\<close> and leaves \<open>rest\<close>. If the repertoire prescribes the move \<open>m\<close> for
  the position of the node, the move is pushed onto the node's board and the service is
  asked about the position that results. When it answers with \<open>r\<close>, the pass continues
  the loop with a frontier that is \<open>rest\<close> followed by one new node for each move the
  answer lists, in order: its probability is the product, as a float, of the node's
  probability and the move's relative probability, which is the quotient, as a float, of
  the games of the move by the games of the position; its board is a new object holding
  the position after the move. The result list is unchanged, so the covered node is not
  emitted. This is what happens when the program's operations on the answer succeed: the
  answer counts a game if it lists a move, its moves are legal in the position, and the
  quotients and products are in the range of the doubles. If the repertoire prescribes
  nothing, the node is appended to the result list, the store is untouched, and the pass
  returns at once when the list has the requested length, the nodes of \<open>rest\<close> being
  left unexplored; otherwise the loop continues with \<open>rest\<close>.
\<close>

theorem loop_body_covered_or_uncovered:
  assumes "pop_most_probable_node (leaf_positions s) = Inr (node, rest)"
    and "board node < length (heap s)"
  shows "(repertoire (fen e (heap s ! board node)) = Some m \<and>
          call_api e (fen e (push (heap s ! board node) m)) = Some r \<and>
          (moves r = [] \<or> total_games r \<noteq> 0) \<and>
          list_all (\<lambda>mv. legal e (push (heap s ! board node) m) (uci mv) \<and>
                      in_double_range (share r mv) \<and>
                      in_double_range (probability node * nearest_double (share r mv)))
            (moves r) \<longrightarrow>
          loop_body e repertoire num_positions s =
            Continue \<lparr>heap = (heap s)[board node := push (heap s ! board node) m] @
                         map (\<lambda>mv. push (push (heap s ! board node) m) (uci mv)) (moves r),
                      leaf_positions = rest @
                         map (\<lambda>(i, mv). \<lparr>board = i, probability =
                                 nearest_double (probability node * nearest_double (share r mv))\<rparr>)
                           (enumerate (length (heap s)) (moves r)),
                      unknown_positions = unknown_positions s\<rparr>) \<and>
         (repertoire (fen e (heap s ! board node)) = None \<longrightarrow>
          loop_body e repertoire num_positions s =
            (if int (length (unknown_positions s)) + 1 = num_positions
             then Return \<lparr>heap = heap s, leaf_positions = rest,
                          unknown_positions = unknown_positions s @ [node]\<rparr>
             else Continue \<lparr>heap = heap s, leaf_positions = rest,
                            unknown_positions = unknown_positions s @ [node]\<rparr>))"
proof (intro conjI impI)
  let ?b = "push (heap s ! board node) m"
  let ?h1 = "(heap s)[board node := ?b]"
  let ?nms = "map (\<lambda>mv. (uci mv, nearest_double (share r mv))) (moves r)"
  assume a: "repertoire (fen e (heap s ! board node)) = Some m \<and>
          call_api e (fen e ?b) = Some r \<and>
          (moves r = [] \<or> total_games r \<noteq> 0) \<and>
          list_all (\<lambda>mv. legal e ?b (uci mv) \<and>
                      in_double_range (share r mv) \<and>
                      in_double_range (probability node * nearest_double (share r mv)))
            (moves r)"
  have play: "play_repertoire_move e repertoire (heap s) (board node) = Inr (True, ?h1)"
    using a by (simp add: play_repertoire_move_def getitem_def)
  have b: "board node < length ?h1" using assms(2) by simp
  have at: "?h1 ! board node = ?b" using assms(2) by simp
  have c: "get_most_common_moves_from_lichess e ?b = Inr ?nms"
    using a by (intro candidates_of_answer) (simp_all add: list_all_iff)
  have l: "\<forall>nm \<in> set ?nms. legal e (?h1 ! board node) (fst nm) \<and>
      in_double_range (probability node * snd nm)"
    using a by (simp add: list_all_iff at)
  have "get_most_common_positions e ?h1 node =
      Inr (?h1 @ map (\<lambda>nm. push (?h1 ! board node) (fst nm)) ?nms,
           [] @ map (\<lambda>(i, nm). \<lparr>board = i,
                       probability = nearest_double (probability node * snd nm)\<rparr>)
                  (enumerate (length ?h1) ?nms))"
    unfolding get_most_common_positions_def using c positions_loop_legal [OF b l, of "[]"]
    by (simp add: at)
  then have "get_most_common_positions e ?h1 node =
      Inr (?h1 @ map (\<lambda>mv. push ?b (uci mv)) (moves r),
           map (\<lambda>(i, mv). \<lparr>board = i, probability =
                   nearest_double (probability node * nearest_double (share r mv))\<rparr>)
             (enumerate (length (heap s)) (moves r)))"
    by (simp add: at map_enumerate_map comp_def)
  then show "loop_body e repertoire num_positions s =
            Continue \<lparr>heap = ?h1 @ map (\<lambda>mv. push ?b (uci mv)) (moves r),
                      leaf_positions = rest @
                         map (\<lambda>(i, mv). \<lparr>board = i, probability =
                                 nearest_double (probability node * nearest_double (share r mv))\<rparr>)
                           (enumerate (length (heap s)) (moves r)),
                      unknown_positions = unknown_positions s\<rparr>"
    using assms(1) play by (simp add: loop_body_def)
next
  assume "repertoire (fen e (heap s ! board node)) = None"
  then have "play_repertoire_move e repertoire (heap s) (board node) = Inr (False, heap s)"
    by (simp add: play_repertoire_move_def getitem_def)
  then show "loop_body e repertoire num_positions s =
            (if int (length (unknown_positions s)) + 1 = num_positions
             then Return \<lparr>heap = heap s, leaf_positions = rest,
                          unknown_positions = unknown_positions s @ [node]\<rparr>
             else Continue \<lparr>heap = heap s, leaf_positions = rest,
                            unknown_positions = unknown_positions s @ [node]\<rparr>)"
    using assms(1) by (simp add: loop_body_def)
qed

theorem loop_body_covered_or_uncovered_witness:
  "pop_most_probable_node (leaf_positions demo_start) = Inr (\<lparr>board = 0, probability = 1\<rparr>, []) \<and>
   board \<lparr>board = 0, probability = 1\<rparr> < length (heap demo_start) \<and>
   demo_repertoire (fen demo_env (heap demo_start ! 0)) = Some ''d2d4'' \<and>
   call_api demo_env (fen demo_env (push (heap demo_start ! 0) ''d2d4'')) = Some d4_answer \<and>
   total_games d4_answer \<noteq> 0 \<and>
   list_all (\<lambda>mv. legal demo_env (push (heap demo_start ! 0) ''d2d4'') (uci mv) \<and>
               in_double_range (share d4_answer mv) \<and>
               in_double_range (1 * nearest_double (share d4_answer mv))) (moves d4_answer) \<and>
   loop_body demo_env demo_repertoire 1 demo_start = Continue demo_state \<and>
   pop_most_probable_node (leaf_positions demo_state) =
     Inr (\<lparr>board = 1, probability = 1/2\<rparr>, [\<lparr>board = 2, probability = 1/4\<rparr>]) \<and>
   board \<lparr>board = 1, probability = 1/2\<rparr> < length (heap demo_state) \<and>
   demo_repertoire (fen demo_env (heap demo_state ! 1)) = Some ''c2c4'' \<and>
   call_api demo_env (fen demo_env (push (heap demo_state ! 1) ''c2c4'')) = Some c4_answer \<and>
   total_games c4_answer \<noteq> 0 \<and>
   list_all (\<lambda>mv. legal demo_env (push (heap demo_state ! 1) ''c2c4'') (uci mv) \<and>
               in_double_range (share c4_answer mv) \<and>
               in_double_range (1/2 * nearest_double (share c4_answer mv))) (moves c4_answer) \<and>
   loop_body demo_env demo_repertoire 1 demo_state = Continue demo_state2 \<and>
   pop_most_probable_node (leaf_positions demo_state2) =
     Inr (\<lparr>board = 2, probability = 1/4\<rparr>, [\<lparr>board = 3, probability = 1/4\<rparr>]) \<and>
   board \<lparr>board = 2, probability = 1/4\<rparr> < length (heap demo_state2) \<and>
   demo_repertoire (fen demo_env (heap demo_state2 ! 2)) = None \<and>
   loop_body demo_env demo_repertoire 1 demo_state2 = Return demo_state3 \<and>
   loop_body demo_env demo_repertoire 3 demo_state2 = Continue demo_state3"
proof -
  have sh: "share d4_answer \<lparr>uci = ''d7d5'', move_white = 2, move_draws = 1, move_black = 1\<rparr> = 1/2"
    "share d4_answer \<lparr>uci = ''g8f6'', move_white = 1, move_draws = 0, move_black = 1\<rparr> = 1/4"
    "share c4_answer \<lparr>uci = ''e7e6'', move_white = 1, move_draws = 1, move_black = 0\<rparr> = 1/2"
    by (simp_all add: share_def move_games_def total_games_def d4_answer_def c4_answer_def)
  have dr: "in_double_range (1/2)" "in_double_range (1/4)"
    by (simp_all add: in_double_range_def demo_doubles)
  have b0: "board \<lparr>board = 0, probability = 1\<rparr> < length (heap demo_start)"
    by (simp add: demo_start_def)
  have b1: "board \<lparr>board = 1, probability = 1/2\<rparr> < length (heap demo_state)"
    by (simp add: demo_state_def)
  have b2: "board \<lparr>board = 2, probability = 1/4\<rparr> < length (heap demo_state2)"
    by (simp add: demo_state2_def demo_heap_def)
  have r0: "demo_repertoire (fen demo_env (heap demo_start ! 0)) = Some ''d2d4''"
    by (simp add: demo_repertoire_def demo_env_def demo_fen_def demo_start_def push_def Board_def)
  have r1: "demo_repertoire (fen demo_env (heap demo_state ! 1)) = Some ''c2c4''"
    by (simp add: demo_repertoire_def demo_env_def demo_fen_def demo_state_def push_def Board_def)
  have r2: "demo_repertoire (fen demo_env (heap demo_state2 ! 2)) = None"
    by (simp add: demo_repertoire_def demo_env_def demo_fen_def demo_state2_def demo_heap_def
        push_def Board_def)
  have a0: "call_api demo_env (fen demo_env (push (heap demo_start ! 0) ''d2d4'')) =
      Some d4_answer"
    by (simp add: demo_env_def demo_api_def demo_fen_def demo_start_def push_def Board_def)
  have a1: "call_api demo_env (fen demo_env (push (heap demo_state ! 1) ''c2c4'')) =
      Some c4_answer"
    by (simp add: demo_env_def demo_api_def demo_fen_def demo_state_def push_def Board_def)
  have t: "total_games d4_answer \<noteq> 0" "total_games c4_answer \<noteq> 0"
    by (simp_all add: total_games_def d4_answer_def c4_answer_def)
  have l0: "list_all (\<lambda>mv. legal demo_env (push (heap demo_start ! 0) ''d2d4'') (uci mv) \<and>
               in_double_range (share d4_answer mv) \<and>
               in_double_range (1 * nearest_double (share d4_answer mv))) (moves d4_answer)"
    unfolding d4_answer_def [THEN arg_cong, of moves]
    by (simp add: sh dr demo_legal nearest_double_half nearest_double_quarter)
  have l1: "list_all (\<lambda>mv. legal demo_env (push (heap demo_state ! 1) ''c2c4'') (uci mv) \<and>
               in_double_range (share c4_answer mv) \<and>
               in_double_range (1/2 * nearest_double (share c4_answer mv))) (moves c4_answer)"
    unfolding c4_answer_def [THEN arg_cong, of moves]
    by (simp add: sh dr demo_legal nearest_double_half)
  from loop_body_covered_or_uncovered [OF demo_pop b0, of demo_repertoire demo_env "''d2d4''"
      d4_answer 1] r0 a0 t l0
  have c0: "loop_body demo_env demo_repertoire 1 demo_start = Continue demo_state"
    unfolding d4_answer_def [THEN arg_cong, of moves]
    by (simp add: demo_start_def demo_state_def sh nearest_double_half nearest_double_quarter)
  from loop_body_covered_or_uncovered [OF demo_pop1 b1, of demo_repertoire demo_env "''c2c4''"
      c4_answer 1] r1 a1 t l1
  have c1: "loop_body demo_env demo_repertoire 1 demo_state = Continue demo_state2"
    unfolding c4_answer_def [THEN arg_cong, of moves]
    by (simp add: demo_state_def demo_state2_def demo_heap_def sh nearest_double_half
        nearest_double_quarter)
  from loop_body_covered_or_uncovered [OF demo_pop2 b2, of demo_repertoire demo_env _ _ 1] r2
  have u1: "loop_body demo_env demo_repertoire 1 demo_state2 = Return demo_state3"
    by (simp add: demo_state2_def demo_state3_def)
  from loop_body_covered_or_uncovered [OF demo_pop2 b2, of demo_repertoire demo_env _ _ 3] r2
  have u3: "loop_body demo_env demo_repertoire 3 demo_state2 = Continue demo_state3"
    by (simp add: demo_state2_def demo_state3_def)
  from demo_pop demo_pop1 demo_pop2 b0 b1 b2 r0 r1 r2 a0 a1 t l0 l1 c0 c1 u1 u3
  show ?thesis by simp
qed

subsection \<open>The size of the result\<close>

lemma loop_body_Continue_size:
  "loop_body e repertoire k s = Continue s' \<Longrightarrow> int (length (unknown_positions s)) < k \<Longrightarrow>
   int (length (unknown_positions s')) < k"
  by (auto simp: loop_body_def split: sum.splits prod.splits if_splits)

lemma loop_body_Return_size:
  "loop_body e repertoire k s = Return s' \<Longrightarrow> int (length (unknown_positions s')) = k"
  by (auto simp: loop_body_def split: sum.splits prod.splits if_splits)

lemma search_loop_size:
  "search_loop n e repertoire k s = Some (Inr (x, s')) \<Longrightarrow>
   int (length (unknown_positions s)) < k \<Longrightarrow>
   (x = Reached \<longrightarrow> int (length (unknown_positions s')) = k) \<and>
   (x = Exhausted \<longrightarrow> leaf_positions s' = [] \<and> int (length (unknown_positions s')) < k)"
proof (induction n arbitrary: s)
  case 0
  then show ?case by (auto split: if_splits)
next
  case (Suc n)
  show ?case
  proof (cases "leaf_positions s = []")
    case True
    with Suc.prems show ?thesis by auto
  next
    case False
    show ?thesis
    proof (cases "loop_body e repertoire k s")
      case (Continue s1)
      with False Suc.prems(1) have "search_loop n e repertoire k s1 = Some (Inr (x, s'))"
        by simp
      moreover have "int (length (unknown_positions s1)) < k"
        using loop_body_Continue_size [OF Continue Suc.prems(2)] .
      ultimately show ?thesis by (rule Suc.IH)
    next
      case (Return s1)
      with False Suc.prems(1) have "x = Reached" "s' = s1" by simp_all
      with loop_body_Return_size [OF Return] show ?thesis by simp
    next
      case (Raise err)
      with False Suc.prems(1) show ?thesis by simp
    qed
  qed
qed

lemma initial_state_unknown:
  "initial_state e is_black = Inr s0 \<Longrightarrow> unknown_positions s0 = []"
  by (auto simp: initial_state_def Let_def split: if_splits sum.splits)

lemma run_size:
  assumes "1 \<le> num_positions"
    and "run fuel e pgn_file is_black num_positions = Some (Inr (x, s))"
  shows "get_most_common_unknown_positions fuel e pgn_file is_black num_positions =
           Some (Inr (unknown_positions s, heap s)) \<and>
         int (length (unknown_positions s)) \<le> num_positions \<and>
         (x = Reached \<longrightarrow> int (length (unknown_positions s)) = num_positions) \<and>
         (x = Exhausted \<longrightarrow>
            leaf_positions s = [] \<and> int (length (unknown_positions s)) < num_positions)"
proof -
  from assms(2) obtain repertoire s0 where
    s0: "initial_state e is_black = Inr s0"
    and sl: "search_loop fuel e repertoire num_positions s0 = Some (Inr (x, s))"
    by (auto simp: run_def split: sum.splits)
  have "int (length (unknown_positions s0)) < num_positions"
    using initial_state_unknown [OF s0] assms(1) by simp
  from search_loop_size [OF sl this]
  have *: "(x = Reached \<longrightarrow> int (length (unknown_positions s)) = num_positions) \<and>
     (x = Exhausted \<longrightarrow> leaf_positions s = [] \<and> int (length (unknown_positions s)) < num_positions)" .
  then have "int (length (unknown_positions s)) \<le> num_positions"
    by (cases x) auto
  with * assms(2) show ?thesis
    by (simp add: get_most_common_unknown_positions_def)
qed

section \<open>Probabilities of the nodes\<close>

lemma in_range_relative:
  assumes "counts_in_range e" "get_most_common_moves_from_lichess e b = Inr nms"
  shows "\<forall>nm \<in> set nms. 0 \<le> snd nm \<and> snd nm \<le> 1"
proof -
  from answer_of_candidates [OF assms(2)] obtain r where r: "call_api e (fen e b) = Some r"
    and t: "moves r = [] \<or> total_games r \<noteq> 0"
    and nms: "nms = map (\<lambda>mv. (uci mv, nearest_double (share r mv))) (moves r)"
    by blast
  from assms(1) r have ir: "in_range r" by (simp add: counts_in_range_def)
  show ?thesis
  proof
    fix nm assume "nm \<in> set nms"
    with nms obtain mv where mv: "mv \<in> set (moves r)" "snd nm = nearest_double (share r mv)"
      by auto
    from ir mv(1) have g: "0 \<le> move_games mv" "move_games mv \<le> total_games r"
      by (auto simp: in_range_def list_all_iff)
    from mv(1) t have "total_games r \<noteq> 0" by auto
    with g have "0 < real_of_int (total_games r)" by simp
    moreover from g have "0 \<le> real_of_int (move_games mv)"
      "real_of_int (move_games mv) \<le> real_of_int (total_games r)" by simp_all
    ultimately have "0 \<le> share r mv" "share r mv \<le> 1" by (simp_all add: share_def)
    from nearest_double_unit [OF this] mv(2) show "0 \<le> snd nm \<and> snd nm \<le> 1" by simp
  qed
qed

lemma expand_in_unit_interval:
  assumes "counts_in_range e" "in_unit_interval p"
    "get_most_common_positions e h p = Inr (h', cs)"
  shows "\<forall>c \<in> set cs. in_unit_interval c"
proof -
  from assms(3) obtain nms where
    nms: "get_most_common_moves_from_lichess e (h ! board p) = Inr nms"
    and pl: "positions_loop e p nms h [] = Inr (h', cs)"
    by (auto simp: get_most_common_positions_def split: sum.splits)
  from positions_loop_probabilities [OF pl]
  have eq: "map probability cs = map (\<lambda>nm. nearest_double (probability p * snd nm)) nms"
    by simp
  show ?thesis
  proof
    fix c assume "c \<in> set cs"
    then have "probability c \<in> set (map probability cs)" by simp
    with eq obtain nm where nm: "nm \<in> set nms"
      "probability c = nearest_double (probability p * snd nm)"
      by auto
    from in_range_relative [OF assms(1) nms] nm(1) have "0 \<le> snd nm" "snd nm \<le> 1" by auto
    moreover from assms(2) have "0 \<le> probability p" "probability p \<le> 1"
      by (simp_all add: in_unit_interval_def)
    ultimately have "0 \<le> probability p * snd nm" "probability p * snd nm \<le> 1"
      by (simp_all add: mult_le_one)
    from nearest_double_unit [OF this] show "in_unit_interval c"
      unfolding in_unit_interval_def nm(2) .
  qed
qed

lemma pop_subset:
  assumes "pop_most_probable_node ls = Inr (node, rest)"
  shows "node \<in> set ls \<and> set rest \<subseteq> set ls"
proof -
  from assms obtain i where i: "max_scan ls 0 None 0 = Some i"
    and nr: "node = ls ! i" "rest = take i ls @ drop (Suc i) ls"
    by (auto simp: pop_most_probable_node_def list_pop_def split: option.splits)
  have "\<exists>p \<in> set ls. 0 < probability p"
  proof (rule ccontr)
    assume "\<not> (\<exists>p \<in> set ls. 0 < probability p)"
    then have "\<forall>p \<in> set ls. probability p \<le> 0" by auto
    from max_scan_le [OF this, of 0 None] i show False by simp
  qed
  from max_scan_Some [OF this, of 0 None] i have "i < length ls" by auto
  then have "node \<in> set ls" by (simp add: nr)
  moreover have "set rest \<subseteq> set ls"
    unfolding nr using set_take_subset [of i ls] set_drop_subset [of "Suc i" ls] by auto
  ultimately show ?thesis by simp
qed

lemma loop_body_Continue_unit:
  assumes "counts_in_range e"
    and inv: "\<forall>n \<in> set (leaf_positions s) \<union> set (unknown_positions s). in_unit_interval n"
    and step: "loop_body e repertoire k s = Continue s'"
  shows "\<forall>n \<in> set (leaf_positions s') \<union> set (unknown_positions s'). in_unit_interval n"
proof -
  from step obtain node rest where pop: "pop_most_probable_node (leaf_positions s) = Inr (node, rest)"
    by (auto simp: loop_body_def split: sum.splits)
  from pop_subset [OF pop] inv have node: "in_unit_interval node"
    and rest: "\<forall>n \<in> set rest. in_unit_interval n" by auto
  from step pop obtain found h1 where
    play: "play_repertoire_move e repertoire (heap s) (board node) = Inr (found, h1)"
    by (auto simp: loop_body_def split: sum.splits)
  show ?thesis
  proof (cases found)
    case True
    with step pop play obtain h2 cs where
      ex: "get_most_common_positions e h1 node = Inr (h2, cs)"
      and s': "s' = \<lparr>heap = h2, leaf_positions = rest @ cs,
                     unknown_positions = unknown_positions s\<rparr>"
      by (auto simp: loop_body_def split: sum.splits)
    from expand_in_unit_interval [OF assms(1) node ex] rest inv show ?thesis
      by (auto simp: s')
  next
    case False
    with step pop play have "leaf_positions s' = rest"
      "unknown_positions s' = unknown_positions s @ [node]"
      by (auto simp: loop_body_def split: if_splits)
    with node rest inv show ?thesis by auto
  qed
qed

lemma initial_state_unit:
  assumes "counts_in_range e" "initial_state e is_black = Inr s0"
  shows "\<forall>n \<in> set (leaf_positions s0) \<union> set (unknown_positions s0). in_unit_interval n"
proof (cases is_black)
  case True
  with assms(2) obtain h cs where
    ex: "get_most_common_positions e [Board] \<lparr>board = 0, probability = 1\<rparr> = Inr (h, cs)"
    and s0: "s0 = \<lparr>heap = h, leaf_positions = cs, unknown_positions = []\<rparr>"
    by (auto simp: initial_state_def Let_def split: sum.splits)
  have "in_unit_interval \<lparr>board = 0, probability = 1\<rparr>" by (simp add: in_unit_interval_def)
  from expand_in_unit_interval [OF assms(1) this ex] show ?thesis by (simp add: s0)
next
  case False
  with assms(2) show ?thesis
    by (auto simp: initial_state_def Let_def in_unit_interval_def)
qed

lemma reach_unit:
  assumes "counts_in_range e"
    and "\<forall>n \<in> set (leaf_positions s0) \<union> set (unknown_positions s0). in_unit_interval n"
    and "reach e repertoire k s0 s"
  shows "\<forall>n \<in> set (leaf_positions s) \<union> set (unknown_positions s). in_unit_interval n"
  using assms(3)
proof (induction rule: reach.induct)
  case reach_start
  from assms(2) show ?case .
next
  case (reach_step s s')
  from loop_body_Continue_unit [OF assms(1) reach_step.IH reach_step.hyps(3)] show ?case .
qed

lemma demo_counts_in_range: "counts_in_range demo_env"
  by (auto simp: counts_in_range_def demo_env_def demo_api_def d4_answer_def c4_answer_def
      in_range_def move_games_def total_games_def split: if_splits)

text \<open>
  Claim C9, as the program has it. Suppose that in every answer of the service the count
  of each listed move is not negative and not above the count of the position. Then in
  every state the loop passes through, every node of the frontier and of the result list
  has a probability in the closed interval [0, 1]. The seed node has probability 1, and
  every node an expansion creates enters the frontier of the next state, so these are the
  nodes of a run.
\<close>

theorem node_probabilities_in_closed_unit_interval:
  assumes "counts_in_range e" "initial_state e is_black = Inr s0"
    and "reach e repertoire num_positions s0 s"
  shows "\<forall>n \<in> set (leaf_positions s) \<union> set (unknown_positions s).
           0 \<le> probability n \<and> probability n \<le> 1"
  using reach_unit [OF assms(1) initial_state_unit [OF assms(1,2)] assms(3)]
  by (simp add: in_unit_interval_def)

theorem node_probabilities_in_closed_unit_interval_witness:
  "counts_in_range demo_env \<and> initial_state demo_env False = Inr demo_start \<and>
   reach demo_env demo_repertoire 1 demo_start demo_state2 \<and>
   leaf_positions demo_state2 = [\<lparr>board = 2, probability = 1/4\<rparr>,
                                 \<lparr>board = 3, probability = 1/4\<rparr>] \<and>
   0 \<le> probability \<lparr>board = 2, probability = 1/4\<rparr> \<and>
   probability \<lparr>board = 2, probability = 1/4\<rparr> \<le> 1 \<and>
   0 \<le> probability \<lparr>board = 3, probability = 1/4\<rparr> \<and>
   probability \<lparr>board = 3, probability = 1/4\<rparr> \<le> 1"
  using node_probabilities_in_closed_unit_interval
      [OF demo_counts_in_range demo_initial_state demo_reach2]
    demo_counts_in_range demo_initial_state demo_reach2
  by (simp add: demo_state2_def)

lemma tiny_quotient: "nearest_double (1 / 10 ^ 400) = 0"
  by (subst nearest_double_tiny) (simp_all add: rne_def power_int_minus)

lemma rare_initial_state:
  "initial_state rare_env True =
     Inr \<lparr>heap = [Board, push Board ''a2a3''],
          leaf_positions = [\<lparr>board = 1, probability = 0\<rparr>], unknown_positions = []\<rparr>"
proof -
  have "to_double (real_of_int (1 + 0 + 0) / real_of_int (10 ^ 400 + 0 + 0)) = Some 0"
    using tiny_quotient by (simp add: to_double_def)
  then show ?thesis
    by (simp add: initial_state_def get_most_common_positions_def
        get_most_common_moves_from_lichess_def rare_env_def rare_api_def demo_fen_def Board_def
        Let_def copy_def push_uci_def push_def to_double_0)
qed

lemma unplayed_initial_state:
  "initial_state unplayed_env True =
     Inr \<lparr>heap = [Board, push Board ''a2a3''],
          leaf_positions = [\<lparr>board = 1, probability = 0\<rparr>], unknown_positions = []\<rparr>"
  by (simp add: initial_state_def get_most_common_positions_def
      get_most_common_moves_from_lichess_def unplayed_env_def unplayed_api_def demo_fen_def
      Board_def Let_def copy_def push_uci_def push_def to_double_0)

text \<open>
  The claim as the specification words it fails, in two ways. When Black is analysed, the
  loop is entered with the nodes of the positions after White's first moves. A move that
  the service lists with no game played gives a node of probability 0; so does a move
  played in one game of \<open>10\<^sup>4\<^sup>0\<^sup>0\<close>, whose relative probability is too small for a
  double and is rounded to zero.
\<close>

theorem node_probability_zero_counterexample:
  "initial_state unplayed_env True =
     Inr \<lparr>heap = [Board, push Board ''a2a3''],
          leaf_positions = [\<lparr>board = 1, probability = 0\<rparr>], unknown_positions = []\<rparr> \<and>
   initial_state rare_env True =
     Inr \<lparr>heap = [Board, push Board ''a2a3''],
          leaf_positions = [\<lparr>board = 1, probability = 0\<rparr>], unknown_positions = []\<rparr> \<and>
   call_api rare_env (fen rare_env Board) =
     Some \<lparr>white = 10 ^ 400, draws = 0, black = 0, moves =
         [\<lparr>uci = ''a2a3'', move_white = 1, move_draws = 0, move_black = 0\<rparr>]\<rparr> \<and>
   \<not> (0 < probability \<lparr>board = 1, probability = 0\<rparr> \<and>
      probability \<lparr>board = 1, probability = 0\<rparr> \<le> 1)"
  by (simp add: rare_initial_state unplayed_initial_state)
     (simp add: rare_env_def rare_api_def demo_fen_def Board_def)

section \<open>Failure of the selection\<close>




lemma play_repertoire_move_Inr:
  "\<exists>found h1. play_repertoire_move e repertoire h a = Inr (found, h1)"
  by (auto simp: play_repertoire_move_def getitem_def split: option.splits)

lemma index_nodes_error:
  "index_nodes e ns rm = Inl err \<Longrightarrow> \<exists>ms. err = ConflictingResponse ms"
proof (induction e ns rm rule: index_nodes.induct)
  case (1 e pgn_nodes rm)
  from "1.prems" show ?case
    by (subst (asm) index_nodes.simps) (auto split: if_splits dest: "1.IH")
qed

lemma read_games_error:
  "read_games e is_black gs rm = Inl err \<Longrightarrow> \<exists>ms. err = ConflictingResponse ms"
  by (induction gs arbitrary: rm) (auto split: sum.splits dest: index_nodes_error)



lemma pop_error: "pop_most_probable_node ls = Inl err \<Longrightarrow> err = AssertionError"
  by (auto simp: pop_most_probable_node_def split: option.splits)











section \<open>Answers in range keep the search within the doubles\<close>

lemma moves_loop_in_range_error:
  "list_all (\<lambda>m. 0 \<le> move_games m \<and> move_games m \<le> tot) ms \<Longrightarrow>
   moves_loop tot ms acc = Inl err \<Longrightarrow> err = ZeroDivisionError"
proof (induction ms arbitrary: acc)
  case Nil
  then show ?case by simp
next
  case (Cons m ms)
  show ?case
  proof (cases "tot = 0")
    case True
    with Cons.prems(2) show ?thesis by (simp add: Let_def)
  next
    case False
    from Cons.prems(1) have g: "0 \<le> move_games m" "move_games m \<le> tot" by simp_all
    with False have "0 < real_of_int tot" by simp
    moreover from g have "0 \<le> real_of_int (move_games m)"
      "real_of_int (move_games m) \<le> real_of_int tot" by simp_all
    ultimately have "0 \<le> real_of_int (move_games m) / real_of_int tot"
      "real_of_int (move_games m) / real_of_int tot \<le> 1" by simp_all
    from to_double_unit [OF this] False Cons.prems(2)
    have "moves_loop tot ms (acc @ [(uci m,
        nearest_double (real_of_int (move_games m) / real_of_int tot))]) = Inl err"
      by (simp add: Let_def move_games_def)
    moreover from Cons.prems(1)
    have "list_all (\<lambda>m. 0 \<le> move_games m \<and> move_games m \<le> tot) ms" by simp
    ultimately show ?thesis by (intro Cons.IH)
  qed
qed

lemma positions_loop_unit_error:
  "in_unit_interval p \<Longrightarrow> \<forall>nm \<in> set nms. 0 \<le> snd nm \<and> snd nm \<le> 1 \<Longrightarrow>
   positions_loop e p nms h acc = Inl err \<Longrightarrow> \<exists>u. err = IllegalMove u"
proof (induction nms arbitrary: h acc)
  case Nil
  then show ?case by simp
next
  case (Cons nm nms)
  from Cons.prems(1,2) have "0 \<le> probability p * snd nm" "probability p * snd nm \<le> 1"
    by (simp_all add: in_unit_interval_def mult_le_one)
  from to_double_unit [OF this] have
    td: "to_double (probability p * snd nm) = Some (nearest_double (probability p * snd nm))" .
  show ?case
  proof (cases "legal e (h ! board p) (fst nm)")
    case True
    with Cons.prems(3) td have "positions_loop e p nms
        ((h @ [h ! board p])[length h := push (h ! board p) (fst nm)])
        (acc @ [\<lparr>board = length h,
                  probability = nearest_double (probability p * snd nm)\<rparr>]) = Inl err"
      by (simp add: copy_def push_uci_def)
    moreover from Cons.prems(2) have "\<forall>nm \<in> set nms. 0 \<le> snd nm \<and> snd nm \<le> 1" by simp
    ultimately show ?thesis using Cons.prems(1) by (intro Cons.IH)
  next
    case False
    with Cons.prems(3) show ?thesis by (auto simp: copy_def push_uci_def)
  qed
qed

lemma expand_in_range_error:
  assumes "counts_in_range e" "in_unit_interval p" "get_most_common_positions e h p = Inl err"
  shows "err \<noteq> NotFinite \<and> err \<noteq> OverflowError"
proof (cases "get_most_common_moves_from_lichess e (h ! board p)")
  case (Inl err')
  with assms(3) have err: "err' = err" by (simp add: get_most_common_positions_def)
  show ?thesis
  proof (cases "call_api e (fen e (h ! board p))")
    case None
    with Inl err show ?thesis by (simp add: get_most_common_moves_from_lichess_def)
  next
    case (Some r)
    with assms(1) have "in_range r" by (simp add: counts_in_range_def)
    then have "list_all (\<lambda>m. 0 \<le> move_games m \<and> move_games m \<le> white r + draws r + black r)
        (moves r)"
      by (simp add: in_range_def total_games_def)
    from moves_loop_in_range_error [OF this, of "[]" err] Inl err Some show ?thesis
      by (simp add: get_most_common_moves_from_lichess_def)
  qed
next
  case (Inr nms)
  with assms(3) have "positions_loop e p nms h [] = Inl err"
    by (simp add: get_most_common_positions_def)
  from positions_loop_unit_error [OF assms(2) in_range_relative [OF assms(1) Inr] this]
  show ?thesis by auto
qed

lemma loop_body_in_range_error:
  assumes "counts_in_range e" "\<forall>n \<in> set (leaf_positions s). in_unit_interval n"
    and "loop_body e repertoire k s = Raise err"
  shows "err \<noteq> NotFinite \<and> err \<noteq> OverflowError"
proof (cases "pop_most_probable_node (leaf_positions s)")
  case (Inl err')
  with assms(3) pop_error [OF Inl] show ?thesis by (simp add: loop_body_def)
next
  case (Inr nr)
  obtain node rest where nr: "nr = (node, rest)" by (cases nr)
  from pop_subset [of "leaf_positions s" node rest] Inr nr assms(2)
  have node: "in_unit_interval node" by simp
  from play_repertoire_move_Inr obtain found h1 where
    play: "play_repertoire_move e repertoire (heap s) (board node) = Inr (found, h1)" by blast
  from assms(3) Inr nr play have "get_most_common_positions e h1 node = Inl err"
    by (auto simp: loop_body_def split: if_splits sum.splits)
  from expand_in_range_error [OF assms(1) node this] show ?thesis .
qed

lemma search_loop_in_range_error:
  assumes "counts_in_range e"
  shows "\<forall>n \<in> set (leaf_positions s) \<union> set (unknown_positions s). in_unit_interval n \<Longrightarrow>
    search_loop fuel e repertoire k s = Some (Inl err) \<Longrightarrow>
    err \<noteq> NotFinite \<and> err \<noteq> OverflowError"
proof (induction fuel arbitrary: s)
  case 0
  then show ?case by (simp split: if_splits)
next
  case (Suc fuel)
  from Suc.prems(2) have ne: "leaf_positions s \<noteq> []" by (auto split: if_splits)
  from Suc.prems(1) have l: "\<forall>n \<in> set (leaf_positions s). in_unit_interval n" by simp
  show ?case
  proof (cases "loop_body e repertoire k s")
    case (Continue s')
    with ne Suc.prems(2) have "search_loop fuel e repertoire k s' = Some (Inl err)" by simp
    from Suc.IH [OF loop_body_Continue_unit [OF assms Suc.prems(1) Continue] this]
    show ?thesis .
  next
    case (Return s')
    with ne Suc.prems(2) show ?thesis by simp
  next
    case (Raise err')
    with ne Suc.prems(2) have "loop_body e repertoire k s = Raise err" by simp
    from loop_body_in_range_error [OF assms l this] show ?thesis .
  qed
qed

text \<open>
  Suppose that in every answer of the service the count of each listed move is not negative
  and not above the count of the position. Then every quotient and every product the
  search computes is in the range of the doubles: the search does not end with
  \<open>OverflowError\<close> or with \<open>NotFinite\<close>.
\<close>

theorem search_stays_in_double_range:
  assumes "counts_in_range e"
  shows "run fuel e pgn_file is_black num_positions \<noteq> Some (Inl NotFinite) \<and>
         run fuel e pgn_file is_black num_positions \<noteq> Some (Inl OverflowError)"
proof (cases "Repertoire e pgn_file is_black")
  case (Inl err)
  with read_games_error [of e is_black pgn_file Map.empty err] show ?thesis
    by (auto simp: run_def Repertoire_def)
next
  case (Inr repertoire)
  show ?thesis
  proof (cases "initial_state e is_black")
    case (Inl err)
    then have "get_most_common_positions e [Board] \<lparr>board = 0, probability = 1\<rparr> = Inl err"
      by (auto simp: initial_state_def Let_def split: if_splits sum.splits)
    moreover have "in_unit_interval \<lparr>board = 0, probability = 1\<rparr>"
      by (simp add: in_unit_interval_def)
    ultimately have "err \<noteq> NotFinite \<and> err \<noteq> OverflowError"
      using expand_in_range_error [OF assms] by blast
    with Inr Inl show ?thesis by (simp add: run_def)
  next
    case s0: (Inr s0)
    from search_loop_in_range_error [OF assms initial_state_unit [OF assms s0]] Inr s0
    show ?thesis by (auto simp: run_def)
  qed
qed

theorem search_stays_in_double_range_witness:
  "counts_in_range demo_env \<and>
   run 4 demo_env [demo_game] False 3 \<noteq> Some (Inl NotFinite) \<and>
   run 4 demo_env [demo_game] False 3 \<noteq> Some (Inl OverflowError)"
  using search_stays_in_double_range [OF demo_counts_in_range, of 4 "[demo_game]" False 3]
    demo_counts_in_range
  by simp

section \<open>Construction of the repertoire\<close>

subsection \<open>The nodes still to index\<close>

lemma side_nodes_True:
  "set (side_nodes True n) = insert n (\<Union>c \<in> set (variations n). set (side_nodes False c))"
  by (cases n) simp

lemma side_nodes_False:
  "set (side_nodes False n) = (\<Union>c \<in> set (variations n). set (side_nodes True c))"
  by (cases n) simp

lemma pending_Nil: "pending [] = {}"
  by (simp add: pending_def)

lemma pending_snoc: "pending (ns @ [n]) = pending ns \<union> set (side_nodes True n)"
  by (auto simp: pending_def)

lemma pending_append: "pending (ns @ ms) = pending ns \<union> pending ms"
  by (auto simp: pending_def)

lemma pending_leaf:
  assumes "ns \<noteq> []" "variations (last ns) = []"
  shows "pending ns = insert (last ns) (pending (butlast ns))"
proof -
  from assms(1) obtain xs x where ns: "ns = xs @ [x]"
    by (cases ns rule: rev_cases) auto
  with assms(2) show ?thesis by (simp add: pending_snoc side_nodes_True)
qed

lemma pending_single:
  assumes "ns \<noteq> []" "variations (last ns) = [c]"
  shows "pending ns = insert (last ns) (pending (butlast ns @ variations c))"
proof -
  from assms(1) obtain xs x where ns: "ns = xs @ [x]"
    by (cases ns rule: rev_cases) auto
  from assms(2) ns have vx: "variations x = [c]" by simp
  have "set (side_nodes True x) = insert x (set (side_nodes False c))"
    by (subst side_nodes_True) (simp add: vx)
  also have "set (side_nodes False c) = pending (variations c)"
    by (simp add: side_nodes_False pending_def)
  finally have "set (side_nodes True x) = insert x (pending (variations c))" .
  moreover have "pending [x] = set (side_nodes True x)"
    by (simp add: pending_def del: side_nodes.simps)
  ultimately have "pending (xs @ [x]) = insert x (pending (xs @ variations c))"
    by (simp add: pending_append)
  with ns show ?thesis by simp
qed

lemma pending_last: "ns \<noteq> [] \<Longrightarrow> last ns \<in> pending ns"
proof -
  assume "ns \<noteq> []"
  then obtain xs x where ns: "ns = xs @ [x]"
    by (cases ns rule: rev_cases) auto
  then show ?thesis by (simp add: pending_snoc side_nodes_True)
qed

lemma single_variation:
  assumes "\<not> 1 < length (variations n)" "length (variations n) \<noteq> 0"
  shows "variations n = [variations n ! 0]"
proof -
  from assms have "length (variations n) = Suc 0" by linarith
  then show ?thesis by (auto simp: length_Suc_conv)
qed

subsection \<open>A conflict ends the construction\<close>

lemma index_nodes_conflict:
  "\<exists>n \<in> pending ns. 1 < length (variations n) \<Longrightarrow>
   \<exists>n \<in> pending ns. 1 < length (variations n) \<and>
     index_nodes e ns rm = Inl (ConflictingResponse (move_stack (node_board n)))"
proof (induction e ns rm rule: index_nodes.induct)
  case (1 e pgn_nodes rm)
  from "1.prems" have ne: "pgn_nodes \<noteq> []" by (auto simp: pending_Nil)
  show ?case
  proof (cases "1 < length (variations (last pgn_nodes))")
    case True
    with ne have "index_nodes e pgn_nodes rm =
        Inl (ConflictingResponse (move_stack (node_board (last pgn_nodes))))"
      by (subst index_nodes.simps) simp
    with True pending_last [OF ne] show ?thesis by blast
  next
    case False
    show ?thesis
    proof (cases "length (variations (last pgn_nodes)) = 0")
      case leaf: True
      then have p: "pending pgn_nodes = insert (last pgn_nodes) (pending (butlast pgn_nodes))"
        using pending_leaf [OF ne] by simp
      with "1.prems" False have "\<exists>n \<in> pending (butlast pgn_nodes). 1 < length (variations n)"
        by auto
      from "1.IH"(1) [OF ne False leaf this] obtain n where
        n: "n \<in> pending (butlast pgn_nodes)" "1 < length (variations n)"
        "index_nodes e (butlast pgn_nodes) rm =
           Inl (ConflictingResponse (move_stack (node_board n)))"
        by blast
      have "index_nodes e pgn_nodes rm = index_nodes e (butlast pgn_nodes) rm"
        using ne False leaf by (subst index_nodes.simps) simp
      with n p show ?thesis by auto
    next
      case inner: False
      let ?c = "variations (last pgn_nodes) ! 0"
      let ?ns = "butlast pgn_nodes @ variations ?c"
      let ?rm = "rm(fen e (node_board (last pgn_nodes)) \<mapsto> node_move ?c)"
      from single_variation [OF False inner]
      have p: "pending pgn_nodes = insert (last pgn_nodes) (pending ?ns)"
        using pending_single [OF ne] by simp
      with "1.prems" False have "\<exists>n \<in> pending ?ns. 1 < length (variations n)"
        by auto
      from "1.IH"(2) [OF ne False inner this] obtain n where
        n: "n \<in> pending ?ns" "1 < length (variations n)"
        "index_nodes e ?ns ?rm = Inl (ConflictingResponse (move_stack (node_board n)))"
        by blast
      have "index_nodes e pgn_nodes rm = index_nodes e ?ns ?rm"
        using ne False inner by (subst index_nodes.simps) simp
      with n p show ?thesis by auto
    qed
  qed
qed

subsection \<open>The map built when there is no conflict\<close>

lemma keys_of_empty: "keys_of e {} = {}"
  by (simp add: keys_of_def)

lemma keys_of_Un: "keys_of e (N \<union> M) = keys_of e N \<union> keys_of e M"
  unfolding keys_of_def by blast

lemma keys_of_insert_leaf: "variations n = [] \<Longrightarrow> keys_of e (insert n N) = keys_of e N"
  unfolding keys_of_def by blast

lemma keys_of_insert_single:
  "variations n = [c] \<Longrightarrow> keys_of e (insert n N) = insert (fen e (node_board n)) (keys_of e N)"
  unfolding keys_of_def by auto

lemma from_nodes_mono: "from_nodes e N k m \<Longrightarrow> N \<subseteq> M \<Longrightarrow> from_nodes e M k m"
  unfolding from_nodes_def by blast

lemma indexed_empty: "indexed e {} rm rm"
  by (simp add: indexed_def keys_of_empty)

lemma indexed_leaf:
  assumes "variations n = []" "indexed e N rm rm'"
  shows "indexed e (insert n N) rm rm'"
  unfolding indexed_def
proof (intro conjI allI impI)
  from assms show "dom rm' = dom rm \<union> keys_of e (insert n N)"
    by (simp add: indexed_def keys_of_insert_leaf)
next
  fix k m assume "rm' k = Some m"
  with assms(2) have "rm k = Some m \<or> from_nodes e N k m" by (simp add: indexed_def)
  then show "rm k = Some m \<or> from_nodes e (insert n N) k m"
    using from_nodes_mono [of e N k m "insert n N"] by blast
qed

lemma indexed_single:
  assumes "variations n = [c]"
    and "indexed e N (rm(fen e (node_board n) \<mapsto> node_move c)) rm'"
  shows "indexed e (insert n N) rm rm'"
  unfolding indexed_def
proof (intro conjI allI impI)
  from assms(2) have "dom rm' = insert (fen e (node_board n)) (dom rm) \<union> keys_of e N"
    by (simp add: indexed_def)
  then show "dom rm' = dom rm \<union> keys_of e (insert n N)"
    by (simp add: keys_of_insert_single [OF assms(1)])
next
  fix k m assume "rm' k = Some m"
  with assms(2) have d: "(rm(fen e (node_board n) \<mapsto> node_move c)) k = Some m \<or>
     from_nodes e N k m"
    by (simp add: indexed_def)
  show "rm k = Some m \<or> from_nodes e (insert n N) k m"
  proof (cases "from_nodes e N k m")
    case True
    then show ?thesis using from_nodes_mono [of e N k m "insert n N"] by blast
  next
    case False
    with d have u: "(rm(fen e (node_board n) \<mapsto> node_move c)) k = Some m" by simp
    show ?thesis
    proof (cases "k = fen e (node_board n)")
      case True
      with u have "node_move c = m" by simp
      with True assms(1) have "from_nodes e (insert n N) k m"
        unfolding from_nodes_def by blast
      then show ?thesis by simp
    next
      case False
      with u show ?thesis by simp
    qed
  qed
qed

lemma indexed_trans:
  assumes "indexed e N rm rm1" "indexed e M rm1 rm2"
  shows "indexed e (N \<union> M) rm rm2"
  unfolding indexed_def
proof (intro conjI allI impI)
  from assms have "dom rm1 = dom rm \<union> keys_of e N" "dom rm2 = dom rm1 \<union> keys_of e M"
    by (simp_all add: indexed_def)
  then show "dom rm2 = dom rm \<union> keys_of e (N \<union> M)"
    by (simp add: keys_of_Un Un_assoc)
next
  fix k m assume "rm2 k = Some m"
  with assms(2) have "rm1 k = Some m \<or> from_nodes e M k m"
    by (simp add: indexed_def)
  moreover have "rm1 k = Some m \<Longrightarrow> rm k = Some m \<or> from_nodes e N k m"
    using assms(1) by (simp add: indexed_def)
  ultimately show "rm k = Some m \<or> from_nodes e (N \<union> M) k m"
    using from_nodes_mono [of e N k m "N \<union> M"] from_nodes_mono [of e M k m "N \<union> M"]
    by blast
qed


lemma index_nodes_success:
  "\<forall>n \<in> pending ns. length (variations n) \<le> 1 \<Longrightarrow>
   \<exists>rm'. index_nodes e ns rm = Inr rm' \<and> indexed e (pending ns) rm rm'"
proof (induction e ns rm rule: index_nodes.induct)
  case (1 e pgn_nodes rm)
  show ?case
  proof (cases "pgn_nodes = []")
    case True
    then have "index_nodes e pgn_nodes rm = Inr rm" by (subst index_nodes.simps) simp
    with True show ?thesis by (simp add: pending_Nil indexed_empty)
  next
    case ne: False
    from "1.prems" pending_last [OF ne] have nc: "\<not> 1 < length (variations (last pgn_nodes))"
      by auto
    show ?thesis
    proof (cases "length (variations (last pgn_nodes)) = 0")
      case leaf: True
      then have p: "pending pgn_nodes = insert (last pgn_nodes) (pending (butlast pgn_nodes))"
        using pending_leaf [OF ne] by simp
      with "1.prems" have "\<forall>n \<in> pending (butlast pgn_nodes). length (variations n) \<le> 1"
        by auto
      from "1.IH"(1) [OF ne nc leaf this] obtain rm' where
        rm': "index_nodes e (butlast pgn_nodes) rm = Inr rm'"
        "indexed e (pending (butlast pgn_nodes)) rm rm'"
        by blast
      have "index_nodes e pgn_nodes rm = index_nodes e (butlast pgn_nodes) rm"
        using ne nc leaf by (subst index_nodes.simps) simp
      with rm' p leaf indexed_leaf [of "last pgn_nodes"] show ?thesis by auto
    next
      case inner: False
      let ?c = "variations (last pgn_nodes) ! 0"
      let ?ns = "butlast pgn_nodes @ variations ?c"
      let ?rm = "rm(fen e (node_board (last pgn_nodes)) \<mapsto> node_move ?c)"
      note sv = single_variation [OF nc inner]
      have p: "pending pgn_nodes = insert (last pgn_nodes) (pending ?ns)"
        using pending_single [OF ne sv] .
      with "1.prems" have "\<forall>n \<in> pending ?ns. length (variations n) \<le> 1"
        by auto
      from "1.IH"(2) [OF ne nc inner this] obtain rm' where
        rm': "index_nodes e ?ns ?rm = Inr rm'" "indexed e (pending ?ns) ?rm rm'"
        by blast
      have "index_nodes e pgn_nodes rm = index_nodes e ?ns ?rm"
        using ne nc inner by (subst index_nodes.simps) simp
      with rm' p indexed_single [OF sv rm'(2)] show ?thesis by simp
    qed
  qed
qed

lemma pending_start:
  "pending (if is_black then variations game else [game]) =
     set (side_nodes (\<not> is_black) game)"
  by (simp add: pending_def side_nodes_False)

lemma read_games_conflict:
  "\<exists>n \<in> set (all_side_nodes is_black gs). 1 < length (variations n) \<Longrightarrow>
   \<exists>n \<in> set (all_side_nodes is_black gs). 1 < length (variations n) \<and>
     read_games e is_black gs rm = Inl (ConflictingResponse (move_stack (node_board n)))"
proof (induction gs arbitrary: rm)
  case Nil
  then show ?case by (simp add: all_side_nodes_def)
next
  case (Cons g gs)
  let ?start = "if is_black then variations g else [g]"
  have all: "set (all_side_nodes is_black (g # gs)) =
      pending ?start \<union> set (all_side_nodes is_black gs)"
    by (simp add: all_side_nodes_def pending_start del: side_nodes.simps)
  show ?case
  proof (cases "\<exists>n \<in> pending ?start. 1 < length (variations n)")
    case True
    from index_nodes_conflict [OF True, of e rm] obtain n where
      "n \<in> pending ?start" "1 < length (variations n)"
      "index_nodes e ?start rm = Inl (ConflictingResponse (move_stack (node_board n)))"
      by blast
    then show ?thesis unfolding all by (intro bexI [of _ n]) auto
  next
    case False
    then have "\<forall>n \<in> pending ?start. length (variations n) \<le> 1"
      by (meson not_less)
    from index_nodes_success [OF this, of e rm] obtain rm' where
      rm': "index_nodes e ?start rm = Inr rm'" by blast
    from Cons.prems False have "\<exists>n \<in> set (all_side_nodes is_black gs). 1 < length (variations n)"
      unfolding all by auto
    from Cons.IH [OF this, of rm'] obtain n where
      "n \<in> set (all_side_nodes is_black gs)" "1 < length (variations n)"
      "read_games e is_black gs rm' = Inl (ConflictingResponse (move_stack (node_board n)))"
      by blast
    with rm' show ?thesis unfolding all by (intro bexI [of _ n]) auto
  qed
qed

lemma read_games_success:
  "\<forall>n \<in> set (all_side_nodes is_black gs). length (variations n) \<le> 1 \<Longrightarrow>
   \<exists>rm'. read_games e is_black gs rm = Inr rm' \<and>
     indexed e (set (all_side_nodes is_black gs)) rm rm'"
proof (induction gs arbitrary: rm)
  case Nil
  then show ?case by (simp add: all_side_nodes_def indexed_empty)
next
  case (Cons g gs)
  let ?start = "if is_black then variations g else [g]"
  have all: "set (all_side_nodes is_black (g # gs)) =
      pending ?start \<union> set (all_side_nodes is_black gs)"
    by (simp add: all_side_nodes_def pending_start del: side_nodes.simps)
  from Cons.prems have "\<forall>n \<in> pending ?start. length (variations n) \<le> 1"
    unfolding all by auto
  from index_nodes_success [OF this, of e rm] obtain rm1 where
    rm1: "index_nodes e ?start rm = Inr rm1" "indexed e (pending ?start) rm rm1" by blast
  from Cons.prems have "\<forall>n \<in> set (all_side_nodes is_black gs). length (variations n) \<le> 1"
    unfolding all by auto
  from Cons.IH [OF this, of rm1] obtain rm2 where
    rm2: "read_games e is_black gs rm1 = Inr rm2"
    "indexed e (set (all_side_nodes is_black gs)) rm1 rm2" by blast
  from rm1 rm2 indexed_trans [OF rm1(2) rm2(2)] show ?case
    unfolding all by simp
qed

lemma conflict_Repertoire:
  "Repertoire demo_env [conflict_game] False = Inl (ConflictingResponse [''e2e4'', ''e7e5''])"
  by (simp add: Repertoire_def conflict_game_def index_nodes.simps push_def Board_def)

text \<open>
  Claim C3, as the program has it. The builder counts the continuations of a node of a game
  tree, not those of a position. Take the nodes of the game trees of the file at which the
  analysed side is to move (\<open>all_side_nodes\<close>). If some such node has two or more
  continuations, the construction fails with the conflicting-response error, and the error
  carries the move sequence that led to such a node. If every such node has at most one
  continuation, the construction succeeds; the keys of the map it yields are the
  serialisations of the nodes that have a continuation, and the move stored under a key is
  the continuation of a node with that serialisation.
\<close>

theorem Repertoire_conflict_or_index:
  "((\<exists>n \<in> set (all_side_nodes is_black pgn_file). 2 \<le> length (variations n)) \<longrightarrow>
      (\<exists>n \<in> set (all_side_nodes is_black pgn_file). 2 \<le> length (variations n) \<and>
         Repertoire e pgn_file is_black =
           Inl (ConflictingResponse (move_stack (node_board n))))) \<and>
   ((\<forall>n \<in> set (all_side_nodes is_black pgn_file). length (variations n) \<le> 1) \<longrightarrow>
      (\<exists>rm. Repertoire e pgn_file is_black = Inr rm \<and>
         dom rm = {fen e (node_board n) |n.
                     n \<in> set (all_side_nodes is_black pgn_file) \<and> variations n \<noteq> []} \<and>
         (\<forall>k m. rm k = Some m \<longrightarrow>
            (\<exists>n \<in> set (all_side_nodes is_black pgn_file). \<exists>c.
               variations n = [c] \<and> fen e (node_board n) = k \<and> node_move c = m))))"
proof (intro conjI impI)
  assume "\<exists>n \<in> set (all_side_nodes is_black pgn_file). 2 \<le> length (variations n)"
  then have "\<exists>n \<in> set (all_side_nodes is_black pgn_file). 1 < length (variations n)"
    by (meson less_le_trans one_less_numeral_iff semiring_norm(76))
  from read_games_conflict [OF this, of e Map.empty]
  obtain n where "n \<in> set (all_side_nodes is_black pgn_file)" "1 < length (variations n)"
    "read_games e is_black pgn_file Map.empty =
       Inl (ConflictingResponse (move_stack (node_board n)))"
    by blast
  moreover from this have "2 \<le> length (variations n)" by simp
  ultimately show "\<exists>n \<in> set (all_side_nodes is_black pgn_file). 2 \<le> length (variations n) \<and>
         Repertoire e pgn_file is_black =
           Inl (ConflictingResponse (move_stack (node_board n)))"
    unfolding Repertoire_def by blast
next
  assume "\<forall>n \<in> set (all_side_nodes is_black pgn_file). length (variations n) \<le> 1"
  from read_games_success [OF this, of e Map.empty] obtain rm where
    "read_games e is_black pgn_file Map.empty = Inr rm"
    "indexed e (set (all_side_nodes is_black pgn_file)) Map.empty rm" by blast
  then show "\<exists>rm. Repertoire e pgn_file is_black = Inr rm \<and>
         dom rm = {fen e (node_board n) |n.
                     n \<in> set (all_side_nodes is_black pgn_file) \<and> variations n \<noteq> []} \<and>
         (\<forall>k m. rm k = Some m \<longrightarrow>
            (\<exists>n \<in> set (all_side_nodes is_black pgn_file). \<exists>c.
               variations n = [c] \<and> fen e (node_board n) = k \<and> node_move c = m))"
    by (intro exI [of _ rm])
      (simp add: Repertoire_def indexed_def keys_of_def from_nodes_def setcompr_eq_image)
qed

theorem Repertoire_conflict_or_index_witness:
  "list_ex (\<lambda>n. 2 \<le> length (variations n)) (all_side_nodes False [conflict_game]) \<and>
   Repertoire demo_env [conflict_game] False =
     Inl (ConflictingResponse [''e2e4'', ''e7e5'']) \<and>
   list_all (\<lambda>n. length (variations n) \<le> 1) (all_side_nodes False [demo_game]) \<and>
   Repertoire demo_env [demo_game] False = Inr demo_repertoire \<and>
   dom demo_repertoire =
     {fen demo_env (node_board n) |n.
        n \<in> set (all_side_nodes False [demo_game]) \<and> variations n \<noteq> []}"
proof -
  have c: "list_ex (\<lambda>n. 2 \<le> length (variations n)) (all_side_nodes False [conflict_game])"
    by (simp add: all_side_nodes_def conflict_game_def)
  have d: "list_all (\<lambda>n. length (variations n) \<le> 1) (all_side_nodes False [demo_game])"
    by (simp add: all_side_nodes_def demo_game_def)
  from d have d': "\<forall>n \<in> set (all_side_nodes False [demo_game]). length (variations n) \<le> 1"
    by (simp only: list_all_iff)
  from Repertoire_conflict_or_index [of False "[demo_game]" demo_env] d' demo_Repertoire
  have "dom demo_repertoire =
     {fen demo_env (node_board n) |n.
        n \<in> set (all_side_nodes False [demo_game]) \<and> variations n \<noteq> []}"
    by auto
  with c d conflict_Repertoire demo_Repertoire
    Repertoire_conflict_or_index [of False "[conflict_game]" demo_env]
  show ?thesis by simp
qed

text \<open>
  The claim as the specification words it fails: a position is a serialisation, and two
  nodes can stand for one position. Here the file has two chapters, \<open>1.e4\<close> and
  \<open>1.d4\<close>. The nodes at which White is to move are the roots of the two chapters; each
  has one continuation, both stand for the start position, which so has two prescribed
  continuations. The construction raises no error and keeps the move of the second chapter.
\<close>

theorem Repertoire_two_chapters_counterexample:
  "all_side_nodes False [e4_chapter, d4_chapter] = [e4_chapter, d4_chapter] \<and>
   fen demo_env (node_board e4_chapter) = fen demo_env (node_board d4_chapter) \<and>
   map node_move (variations e4_chapter) = [''e2e4''] \<and>
   map node_move (variations d4_chapter) = [''d2d4''] \<and>
   Repertoire demo_env [e4_chapter, d4_chapter] False = Inr [demo_fen Board \<mapsto> ''d2d4'']"
  by (simp add: all_side_nodes_def e4_chapter_def d4_chapter_def Repertoire_def
      index_nodes.simps demo_env_def)

section \<open>Termination of the search\<close>

lemma pop_index:
  assumes "pop_most_probable_node ls = Inr (node, rest)"
  shows "\<exists>i < length ls. node = ls ! i \<and> rest = take i ls @ drop (Suc i) ls"
proof -
  from assms obtain i where i: "max_scan ls 0 None 0 = Some i"
    and nr: "node = ls ! i" "rest = take i ls @ drop (Suc i) ls"
    by (auto simp: pop_most_probable_node_def list_pop_def split: option.splits)
  have "\<exists>p \<in> set ls. 0 < probability p"
  proof (rule ccontr)
    assume "\<not> (\<exists>p \<in> set ls. 0 < probability p)"
    then have "\<forall>p \<in> set ls. probability p \<le> 0" by auto
    from max_scan_le [OF this, of 0 None] i show False by simp
  qed
  from max_scan_Some [OF this, of 0 None] i have "i < length ls" by auto
  with nr show ?thesis by blast
qed

lemma pop_split:
  assumes "pop_most_probable_node ls = Inr (node, rest)"
  shows "\<exists>xs ys. ls = xs @ node # ys \<and> rest = xs @ ys"
proof -
  from pop_index [OF assms] obtain i where i: "i < length ls" "node = ls ! i"
    "rest = take i ls @ drop (Suc i) ls" by blast
  from i(1,2) have "ls = take i ls @ node # drop (Suc i) ls"
    by (simp add: id_take_nth_drop)
  with i(3) show ?thesis by blast
qed

lemma loop_body_Continue_cases:
  assumes "loop_body e repertoire k s = Continue s'" "separate s"
  shows "\<exists>node rest. pop_most_probable_node (leaf_positions s) = Inr (node, rest) \<and>
     ((repertoire (fen e (heap s ! board node)) = None \<and>
         heap s' = heap s \<and> leaf_positions s' = rest) \<or>
      (\<exists>m nms. repertoire (fen e (heap s ! board node)) = Some m \<and>
         heap s' = (heap s)[board node := push (heap s ! board node) m] @
                     map (\<lambda>nm. push (push (heap s ! board node) m) (fst nm)) nms \<and>
         leaf_positions s' = rest @
            map (\<lambda>(i, nm). \<lparr>board = i, probability = nearest_double (probability node * snd nm)\<rparr>)
              (enumerate (length (heap s)) nms)))"
proof -
  from assms(1) obtain node rest where
    pop: "pop_most_probable_node (leaf_positions s) = Inr (node, rest)"
    by (auto simp: loop_body_def split: sum.splits)
  from pop_split [OF pop] have "node \<in> set (leaf_positions s)" by auto
  with assms(2) have bn: "board node < length (heap s)" by (simp add: separate_def)
  show ?thesis
  proof (cases "repertoire (fen e (heap s ! board node))")
    case None
    then have "play_repertoire_move e repertoire (heap s) (board node) = Inr (False, heap s)"
      by (simp add: play_repertoire_move_def getitem_def)
    with assms(1) pop have "heap s' = heap s \<and> leaf_positions s' = rest"
      by (auto simp: loop_body_def split: if_splits)
    with pop None show ?thesis by blast
  next
    case (Some m)
    let ?b = "heap s ! board node"
    let ?h1 = "(heap s)[board node := push ?b m]"
    from Some have play: "play_repertoire_move e repertoire (heap s) (board node) = Inr (True, ?h1)"
      by (simp add: play_repertoire_move_def getitem_def)
    with assms(1) pop obtain h2 cs where
      ex: "get_most_common_positions e ?h1 node = Inr (h2, cs)"
      and s': "heap s' = h2" "leaf_positions s' = rest @ cs"
      by (auto simp: loop_body_def split: sum.splits)
    have b1: "board node < length ?h1" using bn by simp
    from positions_expand [OF b1 ex] bn obtain nms where
      "h2 = ?h1 @ map (\<lambda>nm. push (push ?b m) (fst nm)) nms"
      "cs = map (\<lambda>(i, nm). \<lparr>board = i, probability = nearest_double (probability node * snd nm)\<rparr>)
            (enumerate (length (heap s)) nms)"
      by auto
    with pop Some s' show ?thesis by blast
  qed
qed

lemma mult_remove_one:
  "(I, add_mset (x :: nat) I) \<in> mult less_than"
  using one_step_implies_mult [of "{#x#}" "{#}" less_than I] by simp

lemma mult_replace_one:
  assumes "\<forall>k \<in># K. k < (x :: nat)"
  shows "(I + K, add_mset x I) \<in> mult less_than"
  using one_step_implies_mult [of "{#x#}" K less_than I] assms by simp

lemma loop_body_decreases:
  assumes cp: "counts_plies e ply" and bound: "\<forall>key \<in> dom repertoire. ply key < N"
    and sep: "separate s" and step: "loop_body e repertoire k s = Continue s'"
  shows "separate s' \<and>
    (frontier_weights e ply N s', frontier_weights e ply N s) \<in> mult less_than"
proof -
  from loop_body_Continue_cases [OF step sep] obtain node rest where
    pop: "pop_most_probable_node (leaf_positions s) = Inr (node, rest)"
    and cases: "(repertoire (fen e (heap s ! board node)) = None \<and>
         heap s' = heap s \<and> leaf_positions s' = rest) \<or>
      (\<exists>m nms. repertoire (fen e (heap s ! board node)) = Some m \<and>
         heap s' = (heap s)[board node := push (heap s ! board node) m] @
                     map (\<lambda>nm. push (push (heap s ! board node) m) (fst nm)) nms \<and>
         leaf_positions s' = rest @
            map (\<lambda>(i, nm). \<lparr>board = i, probability = nearest_double (probability node * snd nm)\<rparr>)
              (enumerate (length (heap s)) nms))"
    by blast
  from pop_split [OF pop] obtain xs ys where
    ls: "leaf_positions s = xs @ node # ys" and rest: "rest = xs @ ys" by blast
  from sep ls rest have drest: "distinct (map board rest)"
    and notin: "board node \<notin> board ` set rest"
    and lrest: "\<forall>n \<in> set rest. board n < length (heap s)"
    and bn: "board node < length (heap s)"
    by (auto simp: separate_def)
  from notin have nrest: "\<forall>n \<in> set rest. board n \<noteq> board node"
    by (metis imageI)
  have fw: "frontier_weights e ply N s =
      add_mset (weight e ply N (heap s) node) (image_mset (weight e ply N (heap s)) (mset rest))"
    by (simp add: frontier_weights_def ls rest)
  from cases show ?thesis
  proof
    assume u: "repertoire (fen e (heap s ! board node)) = None \<and>
         heap s' = heap s \<and> leaf_positions s' = rest"
    then have "separate s'" using drest lrest by (simp add: separate_def)
    moreover have "frontier_weights e ply N s' =
        image_mset (weight e ply N (heap s)) (mset rest)"
      using u by (simp add: frontier_weights_def)
    ultimately show ?thesis using mult_remove_one by (simp add: fw)
  next
    assume "\<exists>m nms. repertoire (fen e (heap s ! board node)) = Some m \<and>
         heap s' = (heap s)[board node := push (heap s ! board node) m] @
                     map (\<lambda>nm. push (push (heap s ! board node) m) (fst nm)) nms \<and>
         leaf_positions s' = rest @
            map (\<lambda>(i, nm). \<lparr>board = i, probability = nearest_double (probability node * snd nm)\<rparr>)
              (enumerate (length (heap s)) nms)"
    then obtain m nms where hit: "repertoire (fen e (heap s ! board node)) = Some m"
      and h': "heap s' = (heap s)[board node := push (heap s ! board node) m] @
                     map (\<lambda>nm. push (push (heap s ! board node) m) (fst nm)) nms"
      and l': "leaf_positions s' = rest @
            map (\<lambda>(i, nm). \<lparr>board = i, probability = nearest_double (probability node * snd nm)\<rparr>)
              (enumerate (length (heap s)) nms)"
      by blast
    let ?b = "heap s ! board node"
    let ?cs = "map (\<lambda>(i, nm). \<lparr>board = i, probability = nearest_double (probability node * snd nm)\<rparr>)
              (enumerate (length (heap s)) nms)"
    have boards: "map board ?cs = [length (heap s) ..< length (heap s) + length nms]"
    proof -
      have "map board ?cs = map fst (enumerate (length (heap s)) nms)"
        by (simp add: case_prod_beta comp_def)
      then show ?thesis by (simp add: map_fst_enumerate)
    qed
    have len: "length (heap s') = length (heap s) + length nms" by (simp add: h')
    have old: "heap s' ! board n = heap s ! board n" if "n \<in> set rest" for n
    proof -
      from that nrest lrest have "board n \<noteq> board node" "board n < length (heap s)"
        by simp_all
      then show ?thesis by (simp add: h' nth_append)
    qed
    have new: "weight e ply N (heap s') c < weight e ply N (heap s) node"
      if "c \<in> set ?cs" for c
    proof -
      from that have "board c \<in> set (map board ?cs)" by (simp del: map_map)
      with boards obtain i where i: "i < length nms" "board c = length (heap s) + i"
        by (auto simp: in_set_conv_nth)
          (metis add.commute le_add_diff_inverse less_diff_conv2)
      then have "heap s' ! board c = push (push ?b m) (fst (nms ! i))"
        by (simp add: h' nth_append)
      then have "ply (fen e (heap s' ! board c)) = Suc (Suc (ply (fen e ?b)))"
        using cp by (simp add: counts_plies_def)
      moreover from hit bound have "ply (fen e ?b) < N" by (auto simp: dom_def)
      ultimately show ?thesis by (simp add: weight_def)
    qed
    have sep': "separate s'"
      unfolding separate_def l'
    proof (intro conjI ballI)
      show "distinct (map board (rest @ ?cs))"
        unfolding map_append distinct_append boards using drest lrest by auto
    next
      fix n assume "n \<in> set (rest @ ?cs)"
      then have "n \<in> set rest \<or> n \<in> set ?cs" by simp
      then have "n \<in> set rest \<or> board n \<in> board ` set ?cs" by blast
      then consider "n \<in> set rest" | "board n \<in> set (map board ?cs)"
        unfolding set_map by blast
      then show "board n < length (heap s')"
      proof cases
        case 1
        with lrest len show ?thesis by auto
      next
        case 2
        with boards len show ?thesis by auto
      qed
    qed
    have "image_mset (weight e ply N (heap s')) (mset rest) =
        image_mset (weight e ply N (heap s)) (mset rest)"
      by (rule image_mset_cong) (simp add: weight_def old)
    then have "frontier_weights e ply N s' =
        image_mset (weight e ply N (heap s)) (mset rest) +
        image_mset (weight e ply N (heap s')) (mset ?cs)"
      by (simp add: frontier_weights_def l')
    moreover have "\<forall>k \<in># image_mset (weight e ply N (heap s')) (mset ?cs).
        k < weight e ply N (heap s) node"
      using new by auto
    ultimately show ?thesis
      using sep' mult_replace_one by (simp add: fw)
  qed
qed

lemma search_loop_ends:
  assumes cp: "counts_plies e ply" and bound: "\<forall>key \<in> dom repertoire. ply key < N"
  shows "separate s \<longrightarrow> (\<exists>fuel. search_loop fuel e repertoire k s \<noteq> None)"
proof (rule wf_induct [of "inv_image (mult less_than) (frontier_weights e ply N)"])
  show "wf (inv_image (mult less_than) (frontier_weights e ply N))"
    by (intro wf_inv_image wf_mult wf_less_than)
next
  fix s
  assume IH: "\<forall>s'. (s', s) \<in> inv_image (mult less_than) (frontier_weights e ply N) \<longrightarrow>
      separate s' \<longrightarrow> (\<exists>fuel. search_loop fuel e repertoire k s' \<noteq> None)"
  show "separate s \<longrightarrow> (\<exists>fuel. search_loop fuel e repertoire k s \<noteq> None)"
  proof
  assume sep: "separate s"
  show "\<exists>fuel. search_loop fuel e repertoire k s \<noteq> None"
  proof (cases "leaf_positions s = []")
    case True
    then have "search_loop 0 e repertoire k s \<noteq> None" by simp
    then show ?thesis by blast
  next
    case False
    show ?thesis
    proof (cases "loop_body e repertoire k s")
      case (Continue s')
      from loop_body_decreases [OF cp bound sep Continue]
      have "separate s'"
        "(s', s) \<in> inv_image (mult less_than) (frontier_weights e ply N)"
        by simp_all
      with IH obtain fuel where "search_loop fuel e repertoire k s' \<noteq> None"
        by blast
      with False Continue have "search_loop (Suc fuel) e repertoire k s \<noteq> None" by simp
      then show ?thesis by blast
    next
      case (Return s')
      with False have "search_loop (Suc 0) e repertoire k s \<noteq> None" by simp
      then show ?thesis by blast
    next
      case (Raise err)
      with False have "search_loop (Suc 0) e repertoire k s \<noteq> None" by simp
      then show ?thesis by blast
    qed
  qed
  qed
qed

lemma index_nodes_finite:
  "index_nodes e ns rm = Inr rm' \<Longrightarrow> finite (dom rm) \<Longrightarrow> finite (dom rm')"
proof (induction e ns rm rule: index_nodes.induct)
  case (1 e pgn_nodes rm)
  show ?case
  proof (cases "pgn_nodes = []")
    case True
    with "1.prems" show ?thesis by (subst (asm) index_nodes.simps) simp
  next
    case ne: False
    show ?thesis
    proof (cases "1 < length (variations (last pgn_nodes))")
      case True
      with ne "1.prems"(1) show ?thesis by (subst (asm) index_nodes.simps) simp
    next
      case nc: False
      show ?thesis
      proof (cases "length (variations (last pgn_nodes)) = 0")
        case True
        with ne nc "1.prems"(1) have "index_nodes e (butlast pgn_nodes) rm = Inr rm'"
          by (subst (asm) index_nodes.simps) simp
        from "1.IH"(1) [OF ne nc True this "1.prems"(2)] show ?thesis .
      next
        case False
        let ?rm = "rm(fen e (node_board (last pgn_nodes)) \<mapsto>
                     node_move (variations (last pgn_nodes) ! 0))"
        from ne nc False "1.prems"(1) have "index_nodes e
            (butlast pgn_nodes @ variations (variations (last pgn_nodes) ! 0)) ?rm = Inr rm'"
          by (subst (asm) index_nodes.simps) simp
        moreover have "finite (dom ?rm)" using "1.prems"(2) by simp
        ultimately show ?thesis by (rule "1.IH"(2) [OF ne nc False])
      qed
    qed
  qed
qed

lemma read_games_finite:
  "read_games e is_black gs rm = Inr rm' \<Longrightarrow> finite (dom rm) \<Longrightarrow> finite (dom rm')"
  by (induction gs arbitrary: rm) (auto split: sum.splits dest: index_nodes_finite)

lemma initial_state_separate:
  assumes "initial_state e is_black = Inr s0"
  shows "separate s0"
proof (cases is_black)
  case True
  with assms obtain h cs where
    ex: "get_most_common_positions e [Board] \<lparr>board = 0, probability = 1\<rparr> = Inr (h, cs)"
    and s0: "s0 = \<lparr>heap = h, leaf_positions = cs, unknown_positions = []\<rparr>"
    by (auto simp: initial_state_def Let_def split: sum.splits)
  have "board \<lparr>board = 0, probability = 1\<rparr> < length [Board]" by simp
  from positions_expand [OF this ex] obtain nms where
    h: "h = [Board] @ map (\<lambda>nm. push ([Board] ! 0) (fst nm)) nms"
    and cs: "cs = map (\<lambda>(i, nm). \<lparr>board = i, probability = nearest_double (1 * snd nm)\<rparr>)
            (enumerate (length [Board]) nms)"
    by auto
  have "map board cs = map fst (enumerate (length [Board]) nms)"
    unfolding cs by (simp add: case_prod_beta comp_def)
  then have boards: "map board cs = [1 ..< 1 + length nms]"
    by (simp add: map_fst_enumerate)
  have "\<forall>n \<in> set cs. board n < length h"
  proof
    fix n assume "n \<in> set cs"
    then have "board n \<in> set (map board cs)" by (simp del: map_map)
    with boards have "board n < 1 + length nms" by (simp only: set_upt atLeastLessThan_iff)
    then show "board n < length h" by (simp add: h)
  qed
  moreover have "distinct (map board cs)" unfolding boards by simp
  ultimately show ?thesis by (simp add: separate_def s0)
next
  case False
  with assms show ?thesis by (auto simp: initial_state_def Let_def separate_def)
qed

lemma run_ends:
  assumes "counts_plies e ply"
  shows "\<exists>fuel. run fuel e pgn_file is_black k \<noteq> None"
proof (cases "Repertoire e pgn_file is_black")
  case (Inl err)
  then show ?thesis by (simp add: run_def)
next
  case (Inr repertoire)
  then have "finite (dom repertoire)"
    using read_games_finite [of e is_black pgn_file Map.empty repertoire]
    by (simp add: Repertoire_def)
  then have "finite (ply ` dom repertoire)" by simp
  then obtain N where N: "\<forall>n \<in> ply ` dom repertoire. n < N"
    using finite_nat_set_iff_bounded by blast
  then have bound: "\<forall>key \<in> dom repertoire. ply key < N" by simp
  show ?thesis
  proof (cases "initial_state e is_black")
    case (Inl err)
    with Inr show ?thesis by (simp add: run_def)
  next
    case s0: (Inr s0)
    from search_loop_ends [OF assms bound, of s0 k] initial_state_separate [OF s0]
    obtain fuel where "search_loop fuel e repertoire k s0 \<noteq> None" by blast
    with Inr s0 have "run fuel e pgn_file is_black k \<noteq> None" by (simp add: run_def)
    then show ?thesis by blast
  qed
qed

lemma search_loop_more_fuel:
  "search_loop n e repertoire k s = Some r \<Longrightarrow> search_loop (n + d) e repertoire k s = Some r"
proof (induction n arbitrary: s)
  case 0
  then show ?case by (cases d) (auto split: if_splits)
next
  case (Suc n)
  then show ?case by (auto split: if_splits outcome.splits)
qed

lemma demo_ply_fen: "demo_ply (demo_fen b) = length (move_stack b)"
proof -
  have "takeWhile (\<lambda>c. c = CHR ''+'') (replicate n CHR ''+'' @ concat (map (\<lambda>m. CHR '' '' # m) ms))
      = replicate n CHR ''+''" for n and ms :: "string list"
    by (induction n) (cases ms; simp)+
  then show ?thesis by (simp add: demo_ply_def demo_fen_def)
qed

lemma demo_counts_plies: "counts_plies demo_env demo_ply"
  by (simp add: counts_plies_def demo_env_def demo_ply_fen push_def)

lemma get_most_common_unknown_positions_ends:
  assumes "counts_plies e ply"
  shows "\<exists>fuel. get_most_common_unknown_positions fuel e pgn_file is_black k \<noteq> None"
  using run_ends [OF assms, of pgn_file is_black k]
  by (simp add: get_most_common_unknown_positions_def)

lemma run_more_fuel:
  "run n e pgn_file is_black k = Some r \<Longrightarrow> run (n + d) e pgn_file is_black k = Some r"
  by (auto simp: run_def split: sum.splits dest: search_loop_more_fuel)

section \<open>The size of the result\<close>

text \<open>
  Claim C1, for a requested count of at least 1. When the search returns a list, the list
  has at most \<open>num_positions\<close> nodes; it has exactly that many when the search ended at
  the \<^verbatim>\<open>return\<close> inside the loop, and fewer when it ended because the frontier was
  empty. And the search does end, by returning or by raising, when the serialisation
  counts plies: the repertoire has finitely many keys, so a line of play leaves it after
  finitely many plies.
\<close>

theorem result_size:
  assumes "1 \<le> num_positions"
  shows "(\<forall>fuel x s. run fuel e pgn_file is_black num_positions = Some (Inr (x, s)) \<longrightarrow>
            get_most_common_unknown_positions fuel e pgn_file is_black num_positions =
              Some (Inr (unknown_positions s, heap s)) \<and>
            int (length (unknown_positions s)) \<le> num_positions \<and>
            (x = Reached \<longrightarrow> int (length (unknown_positions s)) = num_positions) \<and>
            (x = Exhausted \<longrightarrow>
               leaf_positions s = [] \<and> int (length (unknown_positions s)) < num_positions)) \<and>
         (counts_plies e ply \<longrightarrow>
            (\<exists>fuel. get_most_common_unknown_positions fuel e pgn_file is_black num_positions
                      \<noteq> None))"
  using run_size [OF assms] get_most_common_unknown_positions_ends by blast

theorem result_size_witness:
  "(1::int) \<le> 1 \<and>
   run 3 demo_env [demo_game] False 1 = Some (Inr (Reached, demo_state3)) \<and>
   get_most_common_unknown_positions 3 demo_env [demo_game] False 1 =
     Some (Inr ([\<lparr>board = 2, probability = 1/4\<rparr>], demo_heap)) \<and>
   int (length [\<lparr>board = 2, probability = 1/4::real\<rparr>]) = 1 \<and>
   leaf_positions demo_state3 = [\<lparr>board = 3, probability = 1/4\<rparr>] \<and>
   (1::int) \<le> 3 \<and>
   run 4 demo_env [demo_game] False 3 = Some (Inr (Exhausted, demo_final)) \<and>
   get_most_common_unknown_positions 4 demo_env [demo_game] False 3 =
     Some (Inr ([\<lparr>board = 2, probability = 1/4\<rparr>, \<lparr>board = 3, probability = 1/4\<rparr>],
       demo_heap)) \<and>
   leaf_positions demo_final = [] \<and>
   int (length [\<lparr>board = 2, probability = 1/4::real\<rparr>, \<lparr>board = 3, probability = 1/4\<rparr>]) < 3 \<and>
   counts_plies demo_env demo_ply \<and>
   (\<exists>fuel. get_most_common_unknown_positions fuel demo_env [demo_game] False 1 \<noteq> None)"
proof -
  have one: "(1::int) \<le> 1" and three: "(1::int) \<le> 3" by simp_all
  from result_size [OF one, of demo_env "[demo_game]" False demo_ply]
    result_size [OF three, of demo_env "[demo_game]" False demo_ply]
    demo_run demo_run_exhausted demo_counts_plies
  show ?thesis by (simp add: demo_state3_def demo_final_def)
qed

text \<open>
  For a requested count of 0 the claim fails. Here the file holds no game and White is
  analysed: the start position is uncovered and is appended to the list, which then has
  length 1 and not 0; the frontier is empty, and the search returns the list of one node.
\<close>

theorem result_size_counterexample:
  "get_most_common_unknown_positions 1 demo_env [] False 0 =
     Some (Inr ([\<lparr>board = 0, probability = 1\<rparr>], [Board])) \<and>
   int (length [\<lparr>board = 0, probability = 1::real\<rparr>]) > 0"
  by (simp add: get_most_common_unknown_positions_def run_def Repertoire_def initial_state_def
      loop_body_def pop_most_probable_node_def list_pop_def
      play_repertoire_move_def getitem_def)

section \<open>The search ends\<close>

text \<open>
  When the serialisation counts plies, \<open>get_most_common_unknown_positions\<close> ends on
  every input: some number of passes of the loop suffices for it to return its list or
  to raise, and with more passes allowed the outcome is the same.
\<close>

theorem search_ends:
  assumes "counts_plies e ply"
  shows "\<exists>fuel r. \<forall>d.
    get_most_common_unknown_positions (fuel + d) e pgn_file is_black num_positions = Some r"
proof -
  from run_ends [OF assms, of pgn_file is_black num_positions] obtain fuel r where
    "run fuel e pgn_file is_black num_positions = Some r" by auto
  then have "\<forall>d. run (fuel + d) e pgn_file is_black num_positions = Some r"
    by (simp add: run_more_fuel)
  then show ?thesis
    by (auto simp: get_most_common_unknown_positions_def)
qed

theorem search_ends_witness:
  "counts_plies demo_env demo_ply \<and>
   (\<exists>fuel r. \<forall>d.
      get_most_common_unknown_positions (fuel + d) demo_env [demo_game] False 1 = Some r)"
  using search_ends [OF demo_counts_plies, of "[demo_game]" False 1] demo_counts_plies
  by simp

end
